theory Spec2Isabelle
  imports Main "HOL-Library.Numeral_Type"
begin

unbundle bit_operations_syntax

section \<open>The field collaborator\<close>

text \<open>
  \<^verbatim>\<open>curve.js\<close> imports \<^verbatim>\<open>field.js\<close>, which is not among the sources. The three
  operations it provides are modelled from the interface contract of the specification
  (section 4.1). JavaScript's \<^verbatim>\<open>BigInt\<close> is the type \<^typ>\<open>int\<close>.
\<close>

text \<open>Modelled from the spec: the field prime \<open>p = 2^255 - 19\<close>, owned by \<^verbatim>\<open>field.js\<close>.\<close>

definition fieldPrime :: int where
  "fieldPrime = 2 ^ 255 - 19"

text \<open>
  Modelled from the spec: \<^verbatim>\<open>field.reduce\<close> "maps an arbitrary (possibly negative,
  possibly multi-word-sized) integer to its canonical representative in [0, p)".
\<close>

definition reduce :: "int \<Rightarrow> int" where
  "reduce v = v mod fieldPrime"

text \<open>Modelled from the spec: \<^verbatim>\<open>field.square\<close> is "equivalent to reduce(v*v)".\<close>

definition square :: "int \<Rightarrow> int" where
  "square v = reduce (v * v)"

text \<open>
  The only failure of the collaborator: inversion of an element that reduces to zero.
  A JavaScript exception is the left summand of the result.
\<close>

datatype field_error = InversionOfZero

text \<open>
  The extended Euclidean algorithm on the pair \<open>(a, b)\<close>, carrying the cofactors
  \<open>s\<close> and \<open>t\<close> of the inverted element; it returns the last non-zero remainder
  with its cofactor.
\<close>

function xgcd :: "int \<Rightarrow> int \<Rightarrow> int \<Rightarrow> int \<Rightarrow> int \<times> int" where
  "xgcd a b s t = (if b \<le> 0 then (a, s) else xgcd b (a mod b) t (s - (a div b) * t))"
  by pat_completeness auto
termination
  by (relation "measure (\<lambda>(a, b, s, t). nat b)") auto

declare xgcd.simps [simp del]

text \<open>
  Modelled from the spec: \<^verbatim>\<open>field.inverseOf\<close> "returns the modular multiplicative
  inverse of v mod p; fails or is undefined when v = 0 (mod p)". The inverse is computed
  by the extended Euclidean algorithm.
\<close>

definition inverseOf :: "int \<Rightarrow> field_error + int" where
  "inverseOf v =
     (if reduce v = 0 then Inl InversionOfZero
      else Inr (reduce (snd (xgcd fieldPrime (reduce v) 0 1))))"

section \<open>The curve operations of \<^verbatim>\<open>curve.js\<close>\<close>

definition curveA :: int where
  "curveA = 486662"

definition basePointX :: int where
  "basePointX = 9"

text \<open>
  The object \<^verbatim>\<open>{ x: ..., z: ... }\<close> that the point operations return: the ratio form
  of an X-coordinate.
\<close>

record ratio =
  ratio_x :: int
  ratio_z :: int

text \<open>
  \<^verbatim>\<open>X(x, z)\<close>: affine recovery. The function has no check of its own; an exception of
  \<^verbatim>\<open>field.inverseOf\<close> passes through it.
\<close>

definition X :: "int \<Rightarrow> int \<Rightarrow> field_error + int" where
  "X x z = (case inverseOf z of Inl e \<Rightarrow> Inl e | Inr zi \<Rightarrow> Inr (reduce (x * zi)))"

text \<open>\<^verbatim>\<open>(curveA+2n)/4n\<close>: both operands are positive, so the truncating division is \<open>div\<close>.\<close>

definition doubleA24 :: int where
  "doubleA24 = (curveA + 2) div 4"

definition pointDouble :: "int \<Rightarrow> int \<Rightarrow> ratio" where
  "pointDouble x z =
     (let x2_1 = (x + z) * (x + z);
          x2_2 = (x - z) * (x - z);
          x2 = reduce (x2_1 * x2_2);
          z2_1 = reduce (4 * x * z);
          z2_2 = reduce (x - z) * reduce (x - z);
          z2_3 = doubleA24 * z2_1;
          z2_23 = z2_2 + z2_3;
          z2 = z2_1 * z2_23
      in \<lparr>ratio_x = reduce x2, ratio_z = reduce z2\<rparr>)"

definition pointAdd1 :: "int \<Rightarrow> int \<Rightarrow> int \<Rightarrow> int \<Rightarrow> ratio" where
  "pointAdd1 x z prevX prevZ =
     (let baseX = basePointX;
          baseZ = 1;
          xa = reduce (x - z) * (baseX + baseZ);
          xb = reduce ((x + z) * (baseX - baseZ));
          xc = reduce (square (xa + xb));
          x_nplus1 = prevZ * xc;
          zc = reduce (square (xa - xb));
          z_nplus1 = prevX * zc
      in \<lparr>ratio_x = reduce x_nplus1, ratio_z = reduce z_nplus1\<rparr>)"

definition cswap :: "bool \<Rightarrow> 'a \<Rightarrow> 'a \<Rightarrow> 'a \<times> 'a" where
  "cswap sw a b = (if sw then (b, a) else (a, b))"

definition multA24 :: int where
  "multA24 = (curveA - 2) div 4"

text \<open>
  The variables of \<^verbatim>\<open>pointMult\<close> that the loop assigns. \<open>swap\<close> is a JavaScript
  number that only takes the values 0 and 1.
\<close>

record ladder_state =
  x_2 :: int
  z_2 :: int
  x_3 :: int
  z_3 :: int
  swap :: int

text \<open>
  One execution of the loop body, for the bit index \<open>t\<close>. \<open>x_1\<close> is the
  X-coordinate given to \<^verbatim>\<open>pointMult\<close> and \<open>n\<close> the scalar. \<^verbatim>\<open>n >> t\<close> on a
  \<^verbatim>\<open>BigInt\<close> is \<open>drop_bit\<close> (an arithmetic shift), and \<^verbatim>\<open>!!swap\<close> is
  \<open>swap \<noteq> 0\<close>.
\<close>

definition ladder_step :: "int \<Rightarrow> int \<Rightarrow> int \<Rightarrow> ladder_state \<Rightarrow> ladder_state" where
  "ladder_step x_1 n t s =
     (let k_t = drop_bit (nat t) n AND 1;
          swap1 = swap s XOR (if k_t \<noteq> 0 then 1 else 0);
          (x_2a, x_3a) = cswap (swap1 \<noteq> 0) (x_2 s) (x_3 s);
          (z_2a, z_3a) = cswap (swap1 \<noteq> 0) (z_2 s) (z_3 s);
          swap2 = (if k_t \<noteq> 0 then 1 else 0);
          A = x_2a + z_2a;
          AA = A * A;
          B = x_2a - z_2a;
          BB = B * B;
          E = AA - BB;
          C = x_3a + z_3a;
          D = x_3a - z_3a;
          DA = D * A;
          CB = C * B
      in \<lparr>x_2 = reduce (AA * BB),
          z_2 = reduce (E * (AA + multA24 * E)),
          x_3 = reduce ((DA + CB) * (DA + CB)),
          z_3 = reduce (x_1 * (DA - CB) * (DA - CB)),
          swap = swap2\<rparr>)"

text \<open>
  The loop \<^verbatim>\<open>for (let t = 255n; t >= 0n; t--)\<close>, entered with the current value of
  \<open>t\<close>. Beside the state of the program it carries a log that is not in the source:
  the bit index of every execution of the body, in the order of execution. The log is
  never read by the body.
\<close>

function ladder_loop ::
  "int \<Rightarrow> int \<Rightarrow> int \<Rightarrow> ladder_state \<times> int list \<Rightarrow> ladder_state \<times> int list" where
  "ladder_loop x_1 n t (s, visited) =
     (if t \<ge> 0 then ladder_loop x_1 n (t - 1) (ladder_step x_1 n t s, visited @ [t])
      else (s, visited))"
  by pat_completeness auto
termination
  by (relation "measure (\<lambda>(x_1, n, t, sv). nat (t + 1))") auto

declare ladder_loop.simps [simp del]

text \<open>The assignments of \<^verbatim>\<open>pointMult\<close> before the loop.\<close>

definition ladder_init :: "int \<Rightarrow> ladder_state" where
  "ladder_init Xin = \<lparr>x_2 = 1, z_2 = 0, x_3 = Xin, z_3 = 1, swap = 0\<rparr>"

definition pointMult :: "int \<Rightarrow> int \<Rightarrow> ratio" where
  "pointMult Xin n =
     (let (s, visited) = ladder_loop Xin n 255 (ladder_init Xin, []);
          (x_2f, rest) = cswap (swap s \<noteq> 0) (x_2 s) (x_3 s);
          (z_2f, rest) = cswap (swap s \<noteq> 0) (z_2 s) (z_3 s)
      in \<lparr>ratio_x = x_2f, ratio_z = z_2f\<rparr>)"

text \<open>The log of the loop of \<^verbatim>\<open>pointMult\<close>: the bit indices its body ran for.\<close>

definition pointMult_visited :: "int \<Rightarrow> int \<Rightarrow> int list" where
  "pointMult_visited Xin n = snd (ladder_loop Xin n 255 (ladder_init Xin, []))"

section \<open>The ladder in the words of the specification\<close>

text \<open>
  Section 4.5 of the specification describes the Montgomery ladder on pairs of ratio
  points with a Boolean swap flag. The definitions of this section follow its words; the
  refinement theorem below compares them with \<open>pointMult\<close>.
\<close>

type_synonym point = "int \<times> int"

definition spec_a24_double :: int where
  "spec_a24_double = (486662 + 2) div 4"

definition spec_a24_mult :: int where
  "spec_a24_mult = (486662 - 2) div 4"

definition spec_combined_step :: "int \<Rightarrow> point \<Rightarrow> point \<Rightarrow> point \<times> point" where
  "spec_combined_step x1 P2 P3 =
     (let (x2, z2) = P2;
          (x3, z3) = P3;
          A = x2 + z2; AA = A\<^sup>2;
          B = x2 - z2; BB = B\<^sup>2;
          E = AA - BB;
          C = x3 + z3; D = x3 - z3;
          DA = D * A; CB = C * B;
          x3' = reduce ((DA + CB)\<^sup>2);
          z3' = reduce (x1 * (DA - CB)\<^sup>2);
          x2' = reduce (AA * BB);
          z2' = reduce (E * (AA + spec_a24_mult * E))
      in ((x2', z2'), (x3', z3')))"

text \<open>
  One iteration for the bit index \<open>t\<close>: the swap flag accumulates the bit, the
  conditional swap uses the running value, and the flag is reset to the bit.
\<close>

definition spec_iteration ::
  "int \<Rightarrow> int \<Rightarrow> nat \<Rightarrow> point \<times> point \<times> bool \<Rightarrow> point \<times> point \<times> bool" where
  "spec_iteration x1 n t st =
     (let (P2, P3, sw) = st;
          k_t = bit n t;
          sw' = (sw \<noteq> k_t);
          (Q2, Q3) = (if sw' then (P3, P2) else (P2, P3));
          (R2, R3) = spec_combined_step x1 Q2 Q3
      in (R2, R3, k_t))"

text \<open>The iterations for the bit indices below the third argument, highest first.\<close>

fun spec_ladder ::
  "int \<Rightarrow> int \<Rightarrow> nat \<Rightarrow> point \<times> point \<times> bool \<Rightarrow> point \<times> point \<times> bool" where
  "spec_ladder x1 n 0 st = st"
| "spec_ladder x1 n (Suc t) st = spec_ladder x1 n t (spec_iteration x1 n t st)"

definition spec_pointMult :: "int \<Rightarrow> int \<Rightarrow> point" where
  "spec_pointMult Xin n =
     (let (P2, P3, sw) = spec_ladder Xin n 256 ((1, 0), (Xin, 1), False)
      in if sw then P3 else P2)"

section \<open>Auxiliary notions for the proofs\<close>

text \<open>\<open>k\<close> executions of the loop body, starting with the bit index \<open>t\<close>.\<close>

fun ladder_run :: "int \<Rightarrow> int \<Rightarrow> int \<Rightarrow> nat \<Rightarrow> ladder_state \<Rightarrow> ladder_state" where
  "ladder_run x_1 n t 0 s = s"
| "ladder_run x_1 n t (Suc k) s = ladder_run x_1 n (t - 1) k (ladder_step x_1 n t s)"

text \<open>
  The arithmetic of the loop body on the accumulators after the conditional swap:
  \<open>(a, b)\<close> is doubled and \<open>(c, d)\<close> is added to it.
\<close>

definition ladder_calc :: "int \<Rightarrow> int \<Rightarrow> int \<Rightarrow> int \<Rightarrow> int \<Rightarrow> int \<Rightarrow> ladder_state" where
  "ladder_calc x_1 a b c d k =
     \<lparr>x_2 = reduce ((a + b) * (a + b) * ((a - b) * (a - b))),
      z_2 = reduce (((a + b) * (a + b) - (a - b) * (a - b)) *
              ((a + b) * (a + b) + multA24 * ((a + b) * (a + b) - (a - b) * (a - b)))),
      x_3 = reduce (((c - d) * (a + b) + (c + d) * (a - b)) * ((c - d) * (a + b) + (c + d) * (a - b))),
      z_3 = reduce (x_1 * ((c - d) * (a + b) - (c + d) * (a - b)) * ((c - d) * (a + b) - (c + d) * (a - b))),
      swap = k\<rparr>"

text \<open>A canonically reduced field element, and a loop state of such elements.\<close>

definition reduced :: "int \<Rightarrow> bool" where
  "reduced v \<longleftrightarrow> 0 \<le> v \<and> v < fieldPrime"

definition state_reduced :: "ladder_state \<Rightarrow> bool" where
  "state_reduced s \<longleftrightarrow> reduced (x_2 s) \<and> reduced (z_2 s) \<and> reduced (x_3 s) \<and> reduced (z_3 s)"

text \<open>The loop state of the code against the state of the specification's ladder.\<close>

definition state_rel :: "ladder_state \<Rightarrow> point \<times> point \<times> bool \<Rightarrow> bool" where
  "state_rel s st \<longleftrightarrow> st = ((x_2 s, z_2 s), (x_3 s, z_3 s), swap s \<noteq> 0) \<and> swap s \<in> {0, 1}"

subsection \<open>Primality\<close>

text \<open>Primality of an integer, stated with positive divisors only.\<close>

definition primeZ :: "int \<Rightarrow> bool" where
  "primeZ q \<longleftrightarrow> 1 < q \<and> (\<forall>d. 0 < d \<and> d dvd q \<longrightarrow> d = 1 \<or> d = q)"

text \<open>Trial division by \<open>d\<close>, \<open>d + 1\<close>, \<dots> up to the square root of \<open>n\<close>.\<close>

function trial :: "int \<Rightarrow> int \<Rightarrow> bool" where
  "trial n d = (if n < d * d then True else if n mod d = 0 then False else trial n (d + 1))"
  by pat_completeness auto
termination
proof (relation "measure (\<lambda>(n, d). nat (n + 1 - d))")
  show "wf (measure (\<lambda>(n, d). nat (n + 1 - d)))" by simp
next
  fix n d :: int
  assume "\<not> n < d * d"
  moreover have "d \<le> d * d"
  proof (cases "d \<le> 0")
    case True
    then show ?thesis using zero_le_square [of d] by linarith
  next
    case False
    then have "d * 1 \<le> d * d" by (intro mult_left_mono) auto
    then show ?thesis by simp
  qed
  ultimately show "((n, d + 1), (n, d)) \<in> measure (\<lambda>(n, d). nat (n + 1 - d))" by simp
qed

declare trial.simps [simp del]

subsection \<open>Arithmetic on long numerals\<close>

text \<open>
  Products and squares of integers of up to 256 bits, split into halves twice, so that
  their evaluation multiplies numerals of 64 bits only. The arguments that occur more
  than once are passed through auxiliary functions, so that they are evaluated once.
\<close>

definition fsq :: "int \<Rightarrow> int" where "fsq v = v * v"

definition kcomb64 :: "int \<Rightarrow> int \<Rightarrow> int \<Rightarrow> int" where
  "kcomb64 z0 z2 z3 =
     z0 + (z3 - z0 - z2) * 18446744073709551616 + z2 * 340282366920938463463374607431768211456"

definition kcomb128 :: "int \<Rightarrow> int \<Rightarrow> int \<Rightarrow> int" where
  "kcomb128 z0 z2 z3 =
     z0 + (z3 - z0 - z2) * 340282366920938463463374607431768211456 +
     z2 * 115792089237316195423570985008687907853269984665640564039457584007913129639936"

definition low64 :: "int \<Rightarrow> int \<Rightarrow> int" where
  "low64 v h = v - h * 18446744073709551616"

definition low128 :: "int \<Rightarrow> int \<Rightarrow> int" where
  "low128 v h = v - h * 340282366920938463463374607431768211456"

definition mul128c :: "int \<Rightarrow> int \<Rightarrow> int \<Rightarrow> int \<Rightarrow> int" where
  "mul128c a0 a1 b0 b1 = kcomb64 (a0 * b0) (a1 * b1) ((a0 + a1) * (b0 + b1))"

definition mul128b :: "int \<Rightarrow> int \<Rightarrow> int \<Rightarrow> int \<Rightarrow> int" where
  "mul128b a a1 b b1 = mul128c (low64 a a1) a1 (low64 b b1) b1"

definition mul128 :: "int \<Rightarrow> int \<Rightarrow> int" where
  "mul128 a b = mul128b a (drop_bit 64 a) b (drop_bit 64 b)"

definition kmulc :: "int \<Rightarrow> int \<Rightarrow> int \<Rightarrow> int \<Rightarrow> int" where
  "kmulc a0 a1 b0 b1 = kcomb128 (mul128 a0 b0) (mul128 a1 b1) (mul128 (a0 + a1) (b0 + b1))"

definition kmulb :: "int \<Rightarrow> int \<Rightarrow> int \<Rightarrow> int \<Rightarrow> int" where
  "kmulb a a1 b b1 = kmulc (low128 a a1) a1 (low128 b b1) b1"

definition kmul :: "int \<Rightarrow> int \<Rightarrow> int" where
  "kmul a b = kmulb a (drop_bit 128 a) b (drop_bit 128 b)"

definition sqr128c :: "int \<Rightarrow> int \<Rightarrow> int" where
  "sqr128c a0 a1 = kcomb64 (fsq a0) (fsq a1) (fsq (a0 + a1))"

definition sqr128b :: "int \<Rightarrow> int \<Rightarrow> int" where
  "sqr128b a a1 = sqr128c (low64 a a1) a1"

definition sqr128 :: "int \<Rightarrow> int" where
  "sqr128 a = sqr128b a (drop_bit 64 a)"

definition ksqrc :: "int \<Rightarrow> int \<Rightarrow> int" where
  "ksqrc a0 a1 = kcomb128 (sqr128 a0) (sqr128 a1) (sqr128 (a0 + a1))"

definition ksqrb :: "int \<Rightarrow> int \<Rightarrow> int" where
  "ksqrb a a1 = ksqrc (low128 a a1) a1"

definition ksqr :: "int \<Rightarrow> int" where
  "ksqr a = ksqrb a (drop_bit 128 a)"

text \<open>
  Reduction modulo a divisor of \<open>2 ^ 255 - c\<close>: the bits from 255 on are folded back
  with the factor \<open>c\<close>.
\<close>

definition fold255 :: "int \<Rightarrow> int \<Rightarrow> int \<Rightarrow> int" where
  "fold255 c v h =
     v - h * 57896044618658097711785492504343953926634992332820282019728792003956564819968 + c * h"

definition fold_red :: "int \<Rightarrow> int \<Rightarrow> int" where
  "fold_red c v = fold255 c v (drop_bit 255 v)"

definition fold2 :: "int \<Rightarrow> int \<Rightarrow> int" where
  "fold2 c v = fold_red c (fold_red c v)"

text \<open>Reduction modulo \<open>n\<close> with a precomputed approximation \<open>mu\<close> of \<open>2 ^ (k1 + k2) / n\<close>.\<close>

definition csub :: "int \<Rightarrow> int \<Rightarrow> int" where
  "csub n r = (if n \<le> r then r - n else r)"

definition bfix :: "int \<Rightarrow> int \<Rightarrow> int \<Rightarrow> int" where
  "bfix n v r = (if 0 \<le> r \<and> r < n then r else v mod n)"

definition barrett :: "int \<Rightarrow> int \<Rightarrow> nat \<Rightarrow> nat \<Rightarrow> int \<Rightarrow> int" where
  "barrett n mu k1 k2 v = bfix n v (csub n (csub n (v - n * drop_bit k2 (mu * drop_bit k1 v))))"

text \<open>Powers by squaring, with the reduction \<open>rd\<close> applied after every product.\<close>

definition pstep :: "(int \<Rightarrow> int) \<Rightarrow> int \<Rightarrow> int \<Rightarrow> int \<Rightarrow> int" where
  "pstep rd a b h = (if b = 0 then rd (ksqr h) else rd (kmul (rd (ksqr h)) a))"

function powm :: "(int \<Rightarrow> int) \<Rightarrow> int \<Rightarrow> int \<Rightarrow> int" where
  "powm rd a e = (if e \<le> 0 then 1 else pstep rd a (e mod 2) (powm rd a (e div 2)))"
  by pat_completeness auto
termination
  by (relation "measure (\<lambda>(rd, a, e). nat e)") auto

declare powm.simps [simp del]

subsection \<open>The residues modulo the field prime\<close>

text \<open>The ring of the integers modulo \<open>2 ^ 255 - 19\<close>, and the residue of an integer.\<close>

type_synonym fp = "57896044618658097711785492504343953926634992332820282019728792003956564819949"

definition fp_of :: "int \<Rightarrow> fp" where "fp_of v = of_int v"

text \<open>The doubling formula on an affine coordinate \<open>u\<close>, as numerator and denominator.\<close>

definition dbl_num :: "fp \<Rightarrow> fp" where
  "dbl_num u = (u + 1) * (u + 1) * ((u - 1) * (u - 1))"

definition dbl_den :: "fp \<Rightarrow> fp" where
  "dbl_den u = 4 * u * ((u - 1) * (u - 1) + 486664 * u)"

text \<open>The loop state while only zero bits of the scalar have been read.\<close>

definition ladder_idle :: "int \<Rightarrow> ladder_state \<Rightarrow> bool" where
  "ladder_idle X0 s \<longleftrightarrow>
     x_2 s = 1 \<and> z_2 s = 0 \<and> swap s = 0 \<and> fp_of (x_3 s) = fp_of X0 * fp_of (z_3 s) \<and>
     (fp_of X0 = 0 \<or> fp_of (z_3 s) \<noteq> 0)"

subsection \<open>The loop body on long numerals\<close>

text \<open>
  The loop body with the products on long numerals defined above, every
  intermediate value reduced, and each of them evaluated once.
\<close>

definition canon :: "int \<Rightarrow> int \<Rightarrow> int" where
  "canon v u =
     (if 0 \<le> u \<and> u < fieldPrime then u
      else if fieldPrime \<le> u \<and> u < fieldPrime + fieldPrime then u - fieldPrime
      else v mod fieldPrime)"

definition fr :: "int \<Rightarrow> int" where
  "fr v = canon v (fold2 19 v)"

definition subm :: "int \<Rightarrow> int \<Rightarrow> int" where
  "subm a b = (if b \<le> a then a - b else a - b + fieldPrime)"

definition fast_calc4 :: "int \<Rightarrow> int \<Rightarrow> int \<Rightarrow> int \<Rightarrow> int \<Rightarrow> int \<Rightarrow> ladder_state" where
  "fast_calc4 AA BB E x3 z3 k =
     \<lparr>x_2 = fr (kmul AA BB), z_2 = fr (kmul E (AA + multA24 * E)), x_3 = x3, z_3 = z3, swap = k\<rparr>"

definition fast_calc3 :: "int \<Rightarrow> int \<Rightarrow> int \<Rightarrow> int \<Rightarrow> int \<Rightarrow> int \<Rightarrow> ladder_state" where
  "fast_calc3 x_1 AA BB DA CB k =
     fast_calc4 AA BB (subm AA BB) (fr (ksqr (DA + CB))) (fr (x_1 * fr (ksqr (subm DA CB)))) k"

definition fast_calc2 :: "int \<Rightarrow> int \<Rightarrow> int \<Rightarrow> int \<Rightarrow> int \<Rightarrow> int \<Rightarrow> ladder_state" where
  "fast_calc2 x_1 A B C D k =
     fast_calc3 x_1 (fr (ksqr A)) (fr (ksqr B)) (fr (kmul D A)) (fr (kmul C B)) k"

definition fast_calc :: "int \<Rightarrow> int \<Rightarrow> int \<Rightarrow> int \<Rightarrow> int \<Rightarrow> int \<Rightarrow> ladder_state" where
  "fast_calc x_1 a b c d k = fast_calc2 x_1 (a + b) (subm a b) (c + d) (subm c d) k"

subsection \<open>The scalar of the test vector\<close>

text \<open>
  The scalar of the test vector that the specification names, and the loop state
  of \<open>pointMult\<close> for the base point 9 after every 16 iterations.
\<close>

definition rfc_scalar :: int where
  "rfc_scalar = 0xa546e36bf0527c9d3b16154b82465edd62144c0ac1fc5a18506a2244ba449ac"

definition rfc_checkpoints :: "ladder_state list" where
  "rfc_checkpoints =
    [\<lparr>x_2 = 1,
      z_2 = 0,
      x_3 = 9,
      z_3 = 1,
      swap = 0\<rparr>,
     \<lparr>x_2 = 33193032391439005094855562293620980095300453354973730392006486924544197956447,
      z_2 = 41180687945982052448436650434100510023848965408438164497972555516934182081823,
      x_3 = 12647479972939037500987881586563527814882584318565393830677870713317236360486,
      z_3 = 55587875303975784037175882231044770914996317974566099070638632889755500992035,
      swap = 0\<rparr>,
     \<lparr>x_2 = 53745306867012152636171646083127992705539805600793349536146951241892987119671,
      z_2 = 55240684350602088193047828705061405160499624918567789586785473950369522440281,
      x_3 = 41908702120231695300241548013525243070375234265030226471991934994678543017607,
      z_3 = 26697204743553508683657036530504771073814548117074485915260273726361404750284,
      swap = 0\<rparr>,
     \<lparr>x_2 = 11334099474780354662910455047968291799545809538682933867389755079770575595134,
      z_2 = 45282337101009656951442726397396174238546146905924390429080074202770638209615,
      x_3 = 22269754419978482168697601872881613344958905793313476229012375164887728487969,
      z_3 = 32853435132001557845480638695192727432256450964598414132489622207514110845410,
      swap = 1\<rparr>,
     \<lparr>x_2 = 27277661765782992808430855260912123409809947215490344313180513111240517573142,
      z_2 = 41757676168503821388419005314153614056739247575997465567200989282380485052930,
      x_3 = 43391546404864587403776581930618606717225625417683419763417830118014462448486,
      z_3 = 31233904919433375499708743392784675653986600788315118141237806245245880967753,
      swap = 1\<rparr>,
     \<lparr>x_2 = 17094675445143326154357403626495024275507231196124940524186247913848408203352,
      z_2 = 50335735388510489771696304110301010636509359830312543128919892475831313415678,
      x_3 = 25860514644694411665955613513937284732889925396998343600455292817029044807177,
      z_3 = 17849678066125243527145415189850942971456169144169522270221970860507049597908,
      swap = 1\<rparr>,
     \<lparr>x_2 = 19368202615209488842098619987750920201219213512603203077511652344507768420873,
      z_2 = 7049266816985759243346405583991067083768381410157687231803054896845325261304,
      x_3 = 11589450006285607196347610878844266233097174338719855316846200712235051896643,
      z_3 = 5703367710304502744554096755312469125525171842370080179097283362008865441461,
      swap = 0\<rparr>,
     \<lparr>x_2 = 47163466415663592427032784226218072451134650869424320215305312042702439655928,
      z_2 = 3998102106537223593440158209176928595027542134909213769780776506858413579575,
      x_3 = 52863663751882268110689088883029922641872101066852681098545088676237917670997,
      z_3 = 11775377473585769360404985878972752100892291117368501779280812289832762979431,
      swap = 0\<rparr>,
     \<lparr>x_2 = 7831446680230135351059543751487381536910982319612217357000524928340191166639,
      z_2 = 23558078068674170967320927196761784031002681586972808536169940350645027350457,
      x_3 = 22866237273450800340867385091997572782917742706642622081407036504708614112654,
      z_3 = 14195790488209393245542580073061688030643323228339970472690779493419684551009,
      swap = 1\<rparr>,
     \<lparr>x_2 = 41936061788164732715051009939998712546026370710873157025657671319622757065779,
      z_2 = 35054374204761712004007772367548516367841460127216174861151069626122208992881,
      x_3 = 9079903738949182572773937540745516197161622440661514167908904317977191582216,
      z_3 = 38992089617957671054927900419940756516925799749717659925102992019733458899778,
      swap = 1\<rparr>,
     \<lparr>x_2 = 14147372747982044818700553033862025669269116253053085222113293474697263618424,
      z_2 = 13048232663685968894128949293149178455151056509317497015938704499992200628028,
      x_3 = 8285460915735047440034121452077288738806115698973083706337721692027461616149,
      z_3 = 50413184007798310909786175471899361312082856432361398452159931329358475844966,
      swap = 0\<rparr>,
     \<lparr>x_2 = 5210172818167466159003001048166299106492978600167648000400100970893720430095,
      z_2 = 5250677021696277475697113209011623337480945477127361531745264782815056055440,
      x_3 = 11328644475851783270622011509005134589343076677659653078112780927151184220882,
      z_3 = 38928976481217223650203768490295703621405719090003441348401766951794964580756,
      swap = 1\<rparr>,
     \<lparr>x_2 = 40895389406112477937163235390588926706582917276911143164826690667358546917200,
      z_2 = 54617477684939096881795726734437784224514763907097478632730360181898616939267,
      x_3 = 395215737887788263834256242031621743851473748879732708302894947732947969207,
      z_3 = 48919755785076802132195787999347718594485914129488729133605730579150635231907,
      swap = 1\<rparr>,
     \<lparr>x_2 = 56857378404945836132125519372649697755029678481557310938563865134909080500747,
      z_2 = 30165103369821886729190982378957621114116524654747876900157188657181694186107,
      x_3 = 9524114839010890457366301346574947283708733357692574511160646570009668365841,
      z_3 = 23114431124464711190062547082549799345766295489239707914500853459482034937877,
      swap = 0\<rparr>,
     \<lparr>x_2 = 43563761091429965854285787351494002943305452821702663429186774445408301632110,
      z_2 = 39232861307074575380117767302867965448817211649805623460756888495446025137049,
      x_3 = 17805085004575072380309964306159135893715306141609661428921816099181897745588,
      z_3 = 38765744660431108191915161172475508434524059922378386548245773717710953650729,
      swap = 0\<rparr>,
     \<lparr>x_2 = 5516127816202628257227130186691505718655581371484322572652931268521632973859,
      z_2 = 22172752421755863772884385449504214810616431404705109676331606678666550222423,
      x_3 = 3199055990255661255150087136076772840385384374647535341498657166169738940104,
      z_3 = 23046094979853624353128588756129630308011886046572416805106655826415613929074,
      swap = 0\<rparr>,
     \<lparr>x_2 = 17980815445801654560365419028253588120193932686991223651024104106391664027076,
      z_2 = 9741104444401164300071298372822346822385336616294195133832286089939486048736,
      x_3 = 18198225187521386522446297278976518102080809543288947249819012869991045027717,
      z_3 = 5403241443888757044638125227949195692153518716480013538231037562988572802660,
      swap = 0\<rparr>]"

section \<open>Basic facts about the field operations and the constants\<close>

lemma fieldPrime_value:
  "fieldPrime = 57896044618658097711785492504343953926634992332820282019728792003956564819949"
  by (simp add: fieldPrime_def)

lemma fieldPrime_pos: "0 < fieldPrime"
  by (simp add: fieldPrime_value)

lemma reduce_range: "0 \<le> reduce v \<and> reduce v < fieldPrime"
  using fieldPrime_pos by (simp add: reduce_def)

lemma reduced_reduce: "reduced (reduce v)"
  using reduce_range by (simp add: reduced_def)

lemma reduce_small: "0 \<le> v \<Longrightarrow> v < fieldPrime \<Longrightarrow> reduce v = v"
  by (simp add: reduce_def)

lemma reduce_0: "reduce 0 = 0"
  by (simp add: reduce_def)

lemma reduce_1: "reduce 1 = 1"
  by (simp add: reduce_def fieldPrime_value)

lemma reduce_reduce: "reduce (reduce v) = reduce v"
  by (simp add: reduce_def)

lemma multA24_value: "multA24 = 121665"
  by (simp add: multA24_def curveA_def)

lemma doubleA24_value: "doubleA24 = 121666"
  by (simp add: doubleA24_def curveA_def)

section \<open>The loop of \<open>pointMult\<close>\<close>

lemma scalar_bit: "drop_bit (nat t) n AND (1::int) = (if bit n (nat t) then 1 else 0)"
  by (simp add: and_one_eq bit_iff_odd_drop_bit mod_2_eq_odd)

text \<open>The loop body by cases on the running swap value.\<close>

lemma ladder_step_calc:
  "ladder_step x_1 n t s =
     (let k = (if bit n (nat t) then 1 else 0) in
      if swap s XOR k \<noteq> 0 then ladder_calc x_1 (x_3 s) (z_3 s) (x_2 s) (z_2 s) k
      else ladder_calc x_1 (x_2 s) (z_2 s) (x_3 s) (z_3 s) k)"
  by (simp add: ladder_step_def scalar_bit Let_def cswap_def ladder_calc_def)

text \<open>The loop runs the body once for every bit index from \<open>t\<close> down to 0.\<close>

lemma ladder_loop_run:
  "-1 \<le> t \<Longrightarrow> fst (ladder_loop x_1 n t (s, v)) = ladder_run x_1 n t (nat (t + 1)) s"
proof (induction x_1 n t "(s, v)" arbitrary: s v rule: ladder_loop.induct)
  case (1 x_1 n t s visited)
  show ?case
  proof (cases "t \<ge> 0")
    case True
    have eq: "nat (t + 1) = Suc (nat t)" using True by simp
    have "fst (ladder_loop x_1 n t (s, visited)) =
          fst (ladder_loop x_1 n (t - 1) (ladder_step x_1 n t s, visited @ [t]))"
      using True by (simp add: ladder_loop.simps [of x_1 n t])
    also have "\<dots> = ladder_run x_1 n (t - 1) (nat (t - 1 + 1)) (ladder_step x_1 n t s)"
      using True by (intro "1.hyps") auto
    also have "\<dots> = ladder_run x_1 n t (nat (t + 1)) s"
      by (simp add: eq)
    finally show ?thesis .
  next
    case False
    with "1.prems" have "t = -1" by simp
    then show ?thesis by (simp add: ladder_loop.simps [of x_1 n "-1"])
  qed
qed

lemma ladder_loop_visited:
  "-1 \<le> t \<Longrightarrow> snd (ladder_loop x_1 n t (s, v)) = v @ rev (map int [0..<nat (t + 1)])"
proof (induction x_1 n t "(s, v)" arbitrary: s v rule: ladder_loop.induct)
  case (1 x_1 n t s visited)
  show ?case
  proof (cases "t \<ge> 0")
    case True
    have eq: "nat (t + 1) = Suc (nat t)" using True by simp
    have "snd (ladder_loop x_1 n t (s, visited)) =
          snd (ladder_loop x_1 n (t - 1) (ladder_step x_1 n t s, visited @ [t]))"
      using True by (simp add: ladder_loop.simps [of x_1 n t])
    also have "\<dots> = (visited @ [t]) @ rev (map int [0..<nat (t - 1 + 1)])"
      using True by (intro "1.hyps") auto
    also have "\<dots> = visited @ rev (map int [0..<nat (t + 1)])"
      using True by (simp add: eq)
    finally show ?thesis .
  next
    case False
    with "1.prems" have "t = -1" by simp
    then show ?thesis by (simp add: ladder_loop.simps [of x_1 n "-1"])
  qed
qed

lemma ladder_run_add:
  "ladder_run x_1 n t (j + k) s = ladder_run x_1 n (t - int j) k (ladder_run x_1 n t j s)"
  by (induction j arbitrary: t s) (simp_all add: algebra_simps)

lemma ladder_run_invariant:
  assumes "P s"
    and "\<And>t' s'. P s' \<Longrightarrow> t - int k < t' \<Longrightarrow> t' \<le> t \<Longrightarrow> P (ladder_step x_1 n t' s')"
  shows "P (ladder_run x_1 n t k s)"
  using assms
proof (induction k arbitrary: t s)
  case 0
  then show ?case by simp
next
  case (Suc k)
  have "P (ladder_step x_1 n t s)" using Suc.prems by simp
  moreover have "\<And>t' s'. P s' \<Longrightarrow> (t - 1) - int k < t' \<Longrightarrow> t' \<le> t - 1 \<Longrightarrow> P (ladder_step x_1 n t' s')"
    using Suc.prems(2) by simp
  ultimately show ?case using Suc.IH [of "ladder_step x_1 n t s" "t - 1"] by simp
qed

lemma ladder_run_cong:
  assumes "\<And>t' s'. t - int k < t' \<Longrightarrow> t' \<le> t \<Longrightarrow> ladder_step x_1 n t' s' = ladder_step x_1 m t' s'"
  shows "ladder_run x_1 n t k s = ladder_run x_1 m t k s"
  using assms
proof (induction k arbitrary: t s)
  case 0
  then show ?case by simp
next
  case (Suc k)
  have "ladder_step x_1 n t s = ladder_step x_1 m t s" using Suc.prems by simp
  moreover have "ladder_run x_1 n (t - 1) k (ladder_step x_1 m t s) =
      ladder_run x_1 m (t - 1) k (ladder_step x_1 m t s)"
    using Suc.prems by (intro Suc.IH) simp
  ultimately show ?case by simp
qed

text \<open>\<open>pointMult\<close> is 256 executions of the body and the final conditional swap.\<close>

lemma pointMult_run:
  "pointMult Xin n =
     (let s = ladder_run Xin n 255 256 (ladder_init Xin) in
      if swap s \<noteq> 0 then \<lparr>ratio_x = x_3 s, ratio_z = z_3 s\<rparr>
      else \<lparr>ratio_x = x_2 s, ratio_z = z_2 s\<rparr>)"
proof -
  obtain s v where sv: "ladder_loop Xin n 255 (ladder_init Xin, []) = (s, v)"
    by (cases "ladder_loop Xin n 255 (ladder_init Xin, [])")
  have "s = ladder_run Xin n 255 256 (ladder_init Xin)"
    using ladder_loop_run [of 255 Xin n "ladder_init Xin" "[]"] sv by simp
  then show ?thesis
    by (simp add: pointMult_def sv cswap_def Let_def)
qed

lemma ladder_calc_infinity:
  "x_2 (ladder_calc x_1 1 0 c d k) = 1 \<and> z_2 (ladder_calc x_1 1 0 c d k) = 0 \<and>
   swap (ladder_calc x_1 1 0 c d k) = k"
  by (simp add: ladder_calc_def reduce_1 reduce_0)

lemma ladder_step_reduced: "state_reduced (ladder_step x_1 n t s)"
  by (simp add: ladder_step_calc ladder_calc_def state_reduced_def reduced_reduce Let_def)

lemma ladder_run_reduced:
  assumes "0 < k"
  shows "state_reduced (ladder_run x_1 n t k s)"
proof -
  obtain j where k: "k = Suc j" using assms by (cases k) auto
  have "state_reduced (ladder_run x_1 n (t - 1) j (ladder_step x_1 n t s))"
    by (rule ladder_run_invariant) (simp_all add: ladder_step_reduced)
  then show ?thesis by (simp add: k)
qed

subsection \<open>The code against the ladder of the specification\<close>

lemma ladder_step_spec:
  assumes "state_rel s st"
  shows "state_rel (ladder_step x_1 n (int t) s) (spec_iteration x_1 n t st)"
proof -
  obtain P2 P3 sw where st: "st = (P2, P3, sw)" by (cases st) auto
  have sw: "swap s \<in> {0, 1}" "sw = (swap s \<noteq> 0)" "P2 = (x_2 s, z_2 s)" "P3 = (x_3 s, z_3 s)"
    using assms by (auto simp: state_rel_def st)
  have x: "(swap s XOR (if bit n t then 1 else 0) \<noteq> 0) = (sw \<noteq> bit n t)"
    using sw(1) by (auto simp: sw(2))
  have step: "ladder_step x_1 n (int t) s =
      (if sw \<noteq> bit n t
       then ladder_calc x_1 (x_3 s) (z_3 s) (x_2 s) (z_2 s) (if bit n t then 1 else 0)
       else ladder_calc x_1 (x_2 s) (z_2 s) (x_3 s) (z_3 s) (if bit n t then 1 else 0))"
    using x by (simp add: ladder_step_calc Let_def)
  show ?thesis
  proof (cases "sw \<noteq> bit n t")
    case True
    then show ?thesis
      unfolding step
      by (simp add: state_rel_def ladder_calc_def spec_iteration_def spec_combined_step_def
          st sw(3,4) Let_def power2_eq_square multA24_value spec_a24_mult_def mult.assoc)
  next
    case False
    then show ?thesis
      unfolding step
      by (simp add: state_rel_def ladder_calc_def spec_iteration_def spec_combined_step_def
          st sw(3,4) Let_def power2_eq_square multA24_value spec_a24_mult_def mult.assoc)
  qed
qed

lemma ladder_run_spec:
  "state_rel s st \<Longrightarrow> state_rel (ladder_run x_1 n (int k - 1) k s) (spec_ladder x_1 n k st)"
proof (induction k arbitrary: s st)
  case 0
  then show ?case by simp
next
  case (Suc k)
  have "state_rel (ladder_step x_1 n (int k) s) (spec_iteration x_1 n k st)"
    using Suc.prems by (rule ladder_step_spec)
  from Suc.IH [OF this] show ?case by simp
qed

section \<open>Primality of the field prime\<close>

subsection \<open>A criterion with the prime factors of a part of the predecessor\<close>

lemma power_mod_one:
  fixes a r :: int
  assumes "1 < r" "a ^ e mod r = 1"
  shows "a ^ (e * k) mod r = 1"
proof -
  have "a ^ (e * k) mod r = (a ^ e mod r) ^ k mod r"
    by (simp add: power_mult power_mod)
  then show ?thesis using assms by simp
qed

lemma order_dvd:
  fixes a r :: int and e N :: nat
  assumes r: "1 < r" and e: "0 < e" "a ^ e mod r = 1"
    and least: "\<And>k. 0 < k \<Longrightarrow> a ^ k mod r = 1 \<Longrightarrow> e \<le> k"
    and N: "a ^ N mod r = 1"
  shows "e dvd N"
proof -
  have split: "N = e * (N div e) + N mod e" by simp
  have "a ^ N = a ^ (e * (N div e)) * a ^ (N mod e)"
    by (subst split) (simp only: power_add)
  then have "a ^ N mod r = (a ^ (e * (N div e)) mod r) * a ^ (N mod e) mod r"
    by (simp add: mod_mult_left_eq)
  also have "\<dots> = a ^ (N mod e) mod r"
    using power_mod_one [OF r e(2)] by simp
  finally have "a ^ (N mod e) mod r = 1" using N by simp
  moreover have "N mod e < e" using e(1) by simp
  ultimately have "N mod e = 0"
    using least [of "N mod e"] by (cases "N mod e = 0") auto
  then show ?thesis by auto
qed

lemma order_less:
  fixes a r :: int and e :: nat
  assumes r: "1 < r" and e: "0 < e" "a ^ e mod r = 1"
    and least: "\<And>k. 0 < k \<Longrightarrow> a ^ k mod r = 1 \<Longrightarrow> e \<le> k"
  shows "int e < r"
proof -
  define f where "f i = a ^ i mod r" for i :: nat
  have prod: "(a ^ i mod r) * a ^ (e - i) mod r = 1" if "i \<le> e" for i
  proof -
    have "(a ^ i mod r) * a ^ (e - i) mod r = a ^ i * a ^ (e - i) mod r"
      by (simp add: mod_mult_left_eq)
    also have "a ^ i * a ^ (e - i) = a ^ e"
      using that by (simp flip: power_add)
    finally show ?thesis using e by simp
  qed
  have range: "f i \<in> {1..r - 1}" if "i < e" for i
  proof -
    have "f i \<noteq> 0"
    proof
      assume "f i = 0"
      then have "(a ^ i mod r) * a ^ (e - i) mod r = 0" by (simp add: f_def)
      with prod [of i] that show False by simp
    qed
    moreover have "0 \<le> f i" "f i < r" using r by (simp_all add: f_def)
    ultimately show ?thesis by simp
  qed
  have inj: "inj_on f {0..<e}"
  proof (rule inj_onI)
    fix i j assume ij: "i \<in> {0..<e}" "j \<in> {0..<e}" "f i = f j"
    have aux: False if lt: "i < j" "j < e" and eq: "f i = f j" for i j
    proof -
      have "a ^ (i + (e - j)) mod r = (a ^ i mod r) * a ^ (e - j) mod r"
        by (simp add: power_add mod_mult_left_eq)
      also have "\<dots> = (a ^ j mod r) * a ^ (e - j) mod r"
        using eq by (simp add: f_def)
      also have "\<dots> = 1" using prod [of j] lt by simp
      finally have "a ^ (i + (e - j)) mod r = 1" .
      moreover have "0 < i + (e - j)" "i + (e - j) < e" using lt by simp_all
      ultimately show False using least [of "i + (e - j)"] by simp
    qed
    show "i = j"
    proof (rule ccontr)
      assume "i \<noteq> j"
      then consider "i < j" | "j < i" by linarith
      then show False using aux [of i j] aux [of j i] ij by cases auto
    qed
  qed
  have "card {0..<e} \<le> card {1..r - 1}"
    by (rule card_inj_on_le [OF inj]) (use range in auto)
  then show ?thesis using r by simp
qed

lemma prod_list_dvd:
  fixes m :: int
  assumes "distinct S" "\<forall>s\<in>set S. \<forall>t\<in>set S. s \<noteq> t \<longrightarrow> coprime s t" "\<forall>s\<in>set S. s dvd m"
  shows "prod_list S dvd m"
  using assms
proof (induction S)
  case Nil
  then show ?case by simp
next
  case (Cons s R)
  have "prod_list R dvd m" using Cons by auto
  moreover have "s dvd m" using Cons.prems by simp
  moreover have "coprime s (prod_list R)"
    by (rule prod_list_coprime_right) (use Cons.prems in auto)
  ultimately show ?case by (simp add: divides_mult)
qed

lemma primeZ_coprime:
  assumes "primeZ s" "\<not> s dvd m"
  shows "coprime s m"
proof -
  have "0 < gcd s m" using assms(1) by (auto simp: primeZ_def)
  moreover have "gcd s m dvd s" by simp
  ultimately have "gcd s m = 1 \<or> gcd s m = s" using assms(1) by (auto simp: primeZ_def)
  moreover have "gcd s m \<noteq> s" using assms(2) by (metis gcd_dvd2)
  ultimately show ?thesis by (simp add: coprime_iff_gcd_eq_1)
qed

lemma prod_list_pos:
  fixes S :: "int list"
  assumes "\<forall>s\<in>set S. 0 < s"
  shows "0 < prod_list S"
  using assms by (induction S) simp_all

lemma pocklington:
  fixes n a F :: int
  assumes n: "1 < n"
    and S: "\<forall>s\<in>set S. primeZ s \<and> s dvd (n - 1) \<and> gcd (a ^ nat ((n - 1) div s) mod n - 1) n = 1"
    and dist: "distinct S"
    and copr: "\<forall>s\<in>set S. \<forall>t\<in>set S. s \<noteq> t \<longrightarrow> coprime s t"
    and big: "n \<le> prod_list S * prod_list S"
    and one: "a ^ nat (n - 1) mod n = 1"
  shows "primeZ n"
  unfolding primeZ_def
proof (intro conjI allI impI)
  show "1 < n" by fact
next
  fix d assume d: "0 < d \<and> d dvd n"
  show "d = 1 \<or> d = n"
  proof (rule ccontr)
    assume contra: "\<not> (d = 1 \<or> d = n)"
    define F where "F = prod_list S"
    define N where "N = nat (n - 1)"
    have N: "0 < N" "int N = n - 1" using n by (simp_all add: N_def)
    obtain d' where d': "n = d * d'" using d by auto
    have dpos: "1 < d" "d < n" using d contra zdvd_imp_le [of d n] n by auto
    have d'pos: "1 < d'"
    proof (rule ccontr)
      assume "\<not> 1 < d'"
      then have "d * d' \<le> d * 1" using dpos by (intro mult_left_mono) auto
      then show False using d' dpos by simp
    qed
    define r where "r = min d d'"
    have r: "1 < r" "r dvd n" using dpos d'pos d' by (auto simp: r_def min_def)
    have rr: "r * r \<le> n"
    proof -
      have "r * r \<le> d * d'"
        using dpos d'pos by (intro mult_mono) (auto simp: r_def)
      then show ?thesis using d' by simp
    qed
    have oneN: "a ^ N mod r = 1"
    proof -
      have "a ^ N mod n mod r = a ^ N mod r" using r(2) by (rule mod_mod_cancel)
      then show ?thesis using one r(1) by (simp add: N_def)
    qed
    define e where "e = (LEAST k. 0 < k \<and> a ^ k mod r = 1)"
    have e: "0 < e \<and> a ^ e mod r = 1"
      unfolding e_def by (rule LeastI [of _ N]) (use N oneN in simp)
    have least: "e \<le> k" if "0 < k" "a ^ k mod r = 1" for k
      unfolding e_def using that by (intro Least_le) simp
    have edvd: "e dvd N"
    proof (rule order_dvd [where a = a and r = r])
      show "1 < r" by (rule r(1))
      show "0 < e" "a ^ e mod r = 1" using e by simp_all
      show "a ^ N mod r = 1" by (rule oneN)
    qed (rule least)
    have eless: "int e < r"
    proof (rule order_less [where a = a and r = r])
      show "1 < r" by (rule r(1))
      show "0 < e" "a ^ e mod r = 1" using e by simp_all
    qed (rule least)
    have "s dvd int e" if s: "s \<in> set S" for s
    proof (rule ccontr)
      assume ns: "\<not> s dvd int e"
      have ps: "primeZ s" "s dvd (n - 1)" "gcd (a ^ nat ((n - 1) div s) mod n - 1) n = 1"
        using S s by auto
      have spos: "0 < s" using ps(1) by (simp add: primeZ_def)
      have "coprime s (int e)" using primeZ_coprime [OF ps(1) ns] .
      then have cop: "coprime (int e) s" by (simp add: coprime_commute)
      have "int e dvd int N" using edvd by simp
      moreover have "s * ((n - 1) div s) = n - 1" using ps(2) by simp
      ultimately have "int e dvd s * ((n - 1) div s)" using N(2) by simp
      then have "int e dvd (n - 1) div s" using cop by (simp add: coprime_dvd_mult_right_iff)
      then obtain k where k: "(n - 1) div s = int e * k" by auto
      have "0 \<le> (n - 1) div s" using spos n by (simp add: pos_imp_zdiv_nonneg_iff)
      then have kpos: "0 \<le> k" using k e by (simp add: zero_le_mult_iff)
      have "nat ((n - 1) div s) = e * nat k" using k kpos by (simp add: nat_mult_distrib)
      then have h1: "a ^ nat ((n - 1) div s) mod r = 1"
        using power_mod_one [OF r(1), of a e "nat k"] e by simp
      define h where "h = a ^ nat ((n - 1) div s)"
      have "(h mod n - 1) mod r = (h mod n mod r - 1 mod r) mod r"
        by (simp add: mod_diff_eq)
      also have "h mod n mod r = h mod r" using r(2) by (rule mod_mod_cancel)
      also have "(h mod r - 1 mod r) mod r = 0" using h1 by (simp add: h_def)
      finally have "r dvd h mod n - 1" by auto
      then have "r dvd gcd (h mod n - 1) n" using r(2) by simp
      then have "r dvd 1" using ps(3) by (simp add: h_def)
      then show False using r(1) by simp
    qed
    then have "F dvd int e" unfolding F_def using prod_list_dvd [OF dist copr] by simp
    then have "F \<le> int e" using e by (intro zdvd_imp_le) auto
    then have Fr: "F < r" using eless by simp
    have "n \<le> F * F" using big by (simp add: F_def)
    then have Fpos: "0 < F \<or> F < 0" using n by (cases "F = 0") auto
    show False
    proof (cases "0 < F")
      case True
      have "F * F < r * r" using True Fr by (intro mult_strict_mono) auto
      then show False using rr \<open>n \<le> F * F\<close> by simp
    next
      case False
      then have "F < 0" using Fpos by simp
      moreover have "0 < F"
        unfolding F_def by (rule prod_list_pos) (use S in \<open>auto simp: primeZ_def\<close>)
      ultimately show False by simp
    qed
  qed
qed

subsection \<open>Trial division\<close>

lemma trial_no_divisor:
  "trial n d \<Longrightarrow> d \<le> k \<Longrightarrow> k * k \<le> n \<Longrightarrow> 0 < d \<Longrightarrow> \<not> k dvd n"
proof (induction n d rule: trial.induct)
  case (1 n d)
  show ?case
  proof (cases "k = d")
    case True
    then show ?thesis using "1.prems" by (auto simp: trial.simps [of n d] split: if_splits)
  next
    case False
    have "\<not> n < d * d"
    proof
      assume "n < d * d"
      moreover have "d * d \<le> k * k" using "1.prems" by (intro mult_mono) auto
      ultimately show False using "1.prems" by simp
    qed
    moreover from this have "n mod d \<noteq> 0" "trial n (d + 1)"
      using "1.prems"(1) by (auto simp: trial.simps [of n d] split: if_splits)
    ultimately show ?thesis using "1.IH" "1.prems" False by auto
  qed
qed

lemma trial_prime:
  assumes "1 < n" "trial n 2"
  shows "primeZ n"
  unfolding primeZ_def
proof (intro conjI allI impI)
  show "1 < n" by fact
next
  fix d assume d: "0 < d \<and> d dvd n"
  show "d = 1 \<or> d = n"
  proof (rule ccontr)
    assume contra: "\<not> (d = 1 \<or> d = n)"
    obtain d' where d': "n = d * d'" using d by auto
    have dpos: "1 < d" "d < n" using d contra zdvd_imp_le [of d n] assms(1) by auto
    have d'pos: "1 < d'"
    proof (rule ccontr)
      assume "\<not> 1 < d'"
      then have "d * d' \<le> d * 1" using dpos by (intro mult_left_mono) auto
      then show False using d' dpos by simp
    qed
    define r where "r = min d d'"
    have r: "2 \<le> r" "r dvd n" using dpos d'pos d' by (auto simp: r_def min_def)
    have "r * r \<le> d * d'"
      using dpos d'pos by (intro mult_mono) (auto simp: r_def)
    then have "r * r \<le> n" using d' by simp
    then show False using trial_no_divisor [OF assms(2) r(1)] r(2) by simp
  qed
qed

subsection \<open>Correctness of the arithmetic on long numerals\<close>

lemma fsq_code [code]:
  "fsq 0 = 0" "fsq (Int.Pos m) = Int.Pos (Num.sqr m)" "fsq (Int.Neg m) = Int.Pos (Num.sqr m)"
  by (simp_all add: fsq_def numeral_sqr)

lemma kcomb64_eq:
  "kcomb64 (low64 a a1 * low64 b b1) (a1 * b1) ((low64 a a1 + a1) * (low64 b b1 + b1)) = a * b"
  by (simp add: kcomb64_def low64_def algebra_simps)

lemma kcomb128_eq:
  "kcomb128 (low128 a a1 * low128 b b1) (a1 * b1) ((low128 a a1 + a1) * (low128 b b1 + b1)) = a * b"
  by (simp add: kcomb128_def low128_def algebra_simps)

lemma mul128_eq: "mul128 a b = a * b"
  by (simp add: mul128_def mul128b_def mul128c_def kcomb64_eq)

lemma kmul_eq: "kmul a b = a * b"
  by (simp add: kmul_def kmulb_def kmulc_def mul128_eq kcomb128_eq)

lemma sqr128_eq: "sqr128 a = a * a"
  by (simp add: sqr128_def sqr128b_def sqr128c_def fsq_def kcomb64_eq)

lemma ksqr_eq: "ksqr a = a * a"
  by (simp add: ksqr_def ksqrb_def ksqrc_def sqr128_eq kcomb128_eq)

lemma fold_red_mod:
  assumes "m dvd 2 ^ 255 - c"
  shows "fold_red c v mod m = v mod m"
proof -
  have "fold_red c v = v - (2 ^ 255 - c) * drop_bit 255 v"
    by (simp add: fold_red_def fold255_def algebra_simps)
  moreover have "m dvd (2 ^ 255 - c) * drop_bit 255 v" using assms by simp
  ultimately show ?thesis by (metis mod_diff_right_eq dvd_eq_mod_eq_0 diff_zero mod_mod_trivial)
qed

lemma fold2_mod: "m dvd 2 ^ 255 - c \<Longrightarrow> fold2 c v mod m = v mod m"
  by (simp add: fold2_def fold_red_mod)

lemma powm_mod:
  assumes "\<And>v. rd v mod n = v mod n"
  shows "powm rd a e mod n = a ^ nat e mod n"
  using assms
proof (induction rd a e rule: powm.induct)
  case (1 rd a e)
  note rd = "1.prems"
  show ?case
  proof (cases "e \<le> 0")
    case True
    then show ?thesis by (simp add: powm.simps [of rd a e])
  next
    case False
    define h where "h = powm rd a (e div 2)"
    define k where "k = nat (e div 2)"
    have IH: "h mod n = a ^ k mod n"
      unfolding h_def k_def using False rd by (intro "1.IH") auto
    have sq: "rd (ksqr h) mod n = a ^ k * a ^ k mod n"
      using mod_mult_cong [OF IH IH] by (simp add: rd ksqr_eq)
    have unfold: "powm rd a e = pstep rd a (e mod 2) h"
      using False by (simp add: powm.simps [of rd a e] h_def)
    have half: "0 \<le> e div 2" using False by simp
    show ?thesis
    proof (cases "e mod 2 = 0")
      case True
      have "e = e div 2 + e div 2" using True by presburger
      then have "nat e = nat (e div 2 + e div 2)" by simp
      also have "\<dots> = k + k" using half by (simp add: k_def nat_add_distrib)
      finally have "nat e = k + k" .
      then show ?thesis using True sq by (simp add: unfold pstep_def power_add)
    next
      case odd: False
      have "e = e div 2 + e div 2 + 1" using odd by presburger
      then have "nat e = nat (e div 2 + e div 2 + 1)" by simp
      also have "\<dots> = Suc (k + k)" using half by (simp add: k_def nat_add_distrib)
      finally have e: "nat e = Suc (k + k)" .
      have "rd (kmul (rd (ksqr h)) a) mod n = rd (ksqr h) * a mod n"
        by (simp add: rd kmul_eq)
      also have "\<dots> = (rd (ksqr h) mod n) * a mod n"
        by (simp add: mod_mult_left_eq)
      also have "\<dots> = a ^ k * a ^ k * a mod n"
        by (simp add: sq mod_mult_left_eq)
      finally show ?thesis using odd by (simp add: unfold pstep_def e power_add mult_ac)
    qed
  qed
qed

lemma csub_mod: "csub n r mod n = r mod n"
  by (simp add: csub_def)

lemma bfix_mod: "r mod n = v mod n \<Longrightarrow> bfix n v r mod n = v mod n"
  by (simp add: bfix_def)

lemma barrett_mod: "barrett n mu k1 k2 v mod n = v mod n"
proof -
  have "(v - n * q) mod n = v mod n" for q
  proof -
    have "v - n * q = v + n * (- q)" by simp
    then show ?thesis by (simp only: mod_mult_self2)
  qed
  then show ?thesis unfolding barrett_def by (intro bfix_mod) (simp only: csub_mod)
qed

lemma powm_chain:
  assumes rd: "\<And>v. rd v mod n = v mod n"
    and u: "powm rd a e1 = u" and e: "0 \<le> e1" "0 \<le> e2"
  shows "a ^ nat (e2 * e1) mod n = powm rd u e2 mod n"
proof -
  have "a ^ nat (e2 * e1) = (a ^ nat e1) ^ nat e2"
    using e by (simp add: nat_mult_distrib power_mult mult.commute)
  then have "a ^ nat (e2 * e1) mod n = (a ^ nat e1 mod n) ^ nat e2 mod n"
    by (simp add: power_mod)
  also have "a ^ nat e1 mod n = u mod n"
    using powm_mod [of rd n a e1] rd u by simp
  also have "(u mod n) ^ nat e2 mod n = u ^ nat e2 mod n"
    by (simp add: power_mod)
  also have "\<dots> = powm rd u e2 mod n"
    using powm_mod [of rd n u e2] rd by simp
  finally show ?thesis .
qed

lemma pock1:
  assumes rd: "\<And>v. rd v mod n = v mod n"
    and n: "1 < n" and s: "primeZ s" and fact: "n - 1 = r * s" and r: "0 < r" and big: "n \<le> s * s"
    and g: "gcd (powm rd a r mod n - 1) n = 1"
    and u: "powm rd a s = u" and one: "powm rd u r mod n = 1"
  shows "primeZ n"
proof (rule pocklington [where S = "[s]" and a = a])
  have spos: "0 < s" using s by (simp add: primeZ_def)
  have div: "(n - 1) div s = r" using fact spos by simp
  have "a ^ nat r mod n = powm rd a r mod n"
    using powm_mod [of rd n a r] rd by simp
  then have d: "gcd (a ^ nat ((n - 1) div s) mod n - 1) n = 1" unfolding div using g by simp
  have dv: "s dvd n - 1" unfolding fact by simp
  show "\<forall>s\<in>set [s]. primeZ s \<and> s dvd n - 1 \<and> gcd (a ^ nat ((n - 1) div s) mod n - 1) n = 1"
    using s d dv by simp
  show "a ^ nat (n - 1) mod n = 1"
    using powm_chain [OF rd u, of r] spos r one by (simp add: fact)
qed (use n big in simp_all)

lemma pock2:
  assumes rd: "\<And>v. rd v mod n = v mod n"
    and n: "1 < n" and s: "primeZ s1" "primeZ s2" and cop: "gcd s1 s2 = 1"
    and fact: "n - 1 = r * s1 * s2" and r: "0 < r" and big: "n \<le> (s1 * s2) * (s1 * s2)"
    and u1: "powm rd a (r * s2) = u1" and g1: "gcd (u1 mod n - 1) n = 1"
    and u2: "powm rd a (r * s1) = u2" and g2: "gcd (u2 mod n - 1) n = 1"
    and one: "powm rd u1 s1 mod n = 1"
  shows "primeZ n"
proof (rule pocklington [where S = "[s1, s2]" and a = a])
  have spos: "0 < s1" "0 < s2" using s by (simp_all add: primeZ_def)
  have ne: "s1 \<noteq> s2" using cop s(1) by (auto simp: primeZ_def)
  have div1: "(n - 1) div s1 = r * s2" using fact spos by simp
  have div2: "(n - 1) div s2 = r * s1" using fact spos by simp
  have p1: "a ^ nat (r * s2) mod n = u1 mod n"
    using powm_mod [of rd n a "r * s2"] rd u1 by simp
  have p2: "a ^ nat (r * s1) mod n = u2 mod n"
    using powm_mod [of rd n a "r * s1"] rd u2 by simp
  have d1: "gcd (a ^ nat ((n - 1) div s1) mod n - 1) n = 1" unfolding div1 p1 by (rule g1)
  have d2: "gcd (a ^ nat ((n - 1) div s2) mod n - 1) n = 1" unfolding div2 p2 by (rule g2)
  have dv: "s1 dvd n - 1" "s2 dvd n - 1" unfolding fact by simp_all
  show "\<forall>s\<in>set [s1, s2]. primeZ s \<and> s dvd n - 1 \<and> gcd (a ^ nat ((n - 1) div s) mod n - 1) n = 1"
    using s d1 d2 dv by simp
  show "distinct [s1, s2]" using ne by simp
  show "\<forall>s\<in>set [s1, s2]. \<forall>t\<in>set [s1, s2]. s \<noteq> t \<longrightarrow> coprime s t"
    using cop by (auto simp: coprime_iff_gcd_eq_1 gcd.commute)
  show "n \<le> prod_list [s1, s2] * prod_list [s1, s2]" using big by simp
  have "0 \<le> r * s2" using r spos by simp
  from powm_chain [OF rd u1 this, of s1] spos one
  show "a ^ nat (n - 1) mod n = 1" by (simp add: fact mult_ac)
qed (use n in simp)

subsection \<open>The chain of certificates\<close>

lemma prime_7: "primeZ 7"
  by (rule trial_prime) (simp, code_simp)

lemma prime_97: "primeZ 97"
  by (rule trial_prime) (simp, code_simp)

lemma prime_103: "primeZ 103"
  by (rule trial_prime) (simp, code_simp)

lemma prime_419: "primeZ 419"
  by (rule trial_prime) (simp, code_simp)

lemma prime_991: "primeZ 991"
  by (rule trial_prime) (simp, code_simp)

lemma prime_1723: "primeZ 1723"
  by (rule trial_prime) (simp, code_simp)

lemma prime_4153: "primeZ 4153"
  by (rule trial_prime) (simp, code_simp)

lemma rd_p430751: "(barrett 430751 638136 18 20) v mod 430751 = v mod 430751"
  by (rule barrett_mod)

lemma p430751_gcd: "gcd (powm (barrett 430751 638136 18 20) 2 250 mod 430751 - 1) 430751 = 1"
  by code_simp

lemma p430751_exp: "powm (barrett 430751 638136 18 20) 2 1723 = 270993"
  by code_simp

lemma p430751_one: "powm (barrett 430751 638136 18 20) 270993 250 mod 430751 = 1"
  by code_simp

lemma prime_430751: "primeZ 430751"
  by (rule pock1 [where rd = "barrett 430751 638136 18 20" and a = 2 and s = 1723 and r = 250,
        OF rd_p430751 _ prime_1723 _ _ _ p430751_gcd p430751_exp p430751_one]) simp_all

lemma rd_p569003: "(barrett 569003 1932347 19 21) v mod 569003 = v mod 569003"
  by (rule barrett_mod)

lemma p569003_cop: "gcd (97::int) 419 = 1"
  by code_simp

lemma p569003_exp1: "powm (barrett 569003 1932347 19 21) 2 (14 * 419) = 439588"
  by code_simp

lemma p569003_gcd1: "gcd ((439588::int) mod 569003 - 1) 569003 = 1"
  by code_simp

lemma p569003_exp2: "powm (barrett 569003 1932347 19 21) 2 (14 * 97) = 236160"
  by code_simp

lemma p569003_gcd2: "gcd ((236160::int) mod 569003 - 1) 569003 = 1"
  by code_simp

lemma p569003_one: "powm (barrett 569003 1932347 19 21) 439588 97 mod 569003 = 1"
  by code_simp

lemma prime_569003: "primeZ 569003"
  by (rule pock2 [where rd = "barrett 569003 1932347 19 21" and a = 2 and ?s1.0 = 97 and ?s2.0 = 419 and r = 14,
        OF rd_p569003 _ prime_97 prime_419 p569003_cop _ _ _ p569003_exp1 p569003_gcd1 p569003_exp2 p569003_gcd2 p569003_one]) simp_all

lemma rd_p8574133: "(barrett 8574133 32828389 23 25) v mod 8574133 = v mod 8574133"
  by (rule barrett_mod)

lemma p8574133_cop: "gcd (103::int) 991 = 1"
  by code_simp

lemma p8574133_exp1: "powm (barrett 8574133 32828389 23 25) 2 (84 * 991) = 4321357"
  by code_simp

lemma p8574133_gcd1: "gcd ((4321357::int) mod 8574133 - 1) 8574133 = 1"
  by code_simp

lemma p8574133_exp2: "powm (barrett 8574133 32828389 23 25) 2 (84 * 103) = 3435729"
  by code_simp

lemma p8574133_gcd2: "gcd ((3435729::int) mod 8574133 - 1) 8574133 = 1"
  by code_simp

lemma p8574133_one: "powm (barrett 8574133 32828389 23 25) 4321357 103 mod 8574133 = 1"
  by code_simp

lemma prime_8574133: "primeZ 8574133"
  by (rule pock2 [where rd = "barrett 8574133 32828389 23 25" and a = 2 and ?s1.0 = 103 and ?s2.0 = 991 and r = 84,
        OF rd_p8574133 _ prime_103 prime_991 p8574133_cop _ _ _ p8574133_exp1 p8574133_gcd1 p8574133_exp2 p8574133_gcd2 p8574133_one]) simp_all

lemma rd_p2773320623: "(barrett 2773320623 6651500703 31 33) v mod 2773320623 = v mod 2773320623"
  by (rule barrett_mod)

lemma p2773320623_gcd: "gcd (powm (barrett 2773320623 6651500703 31 33) 2 4874 mod 2773320623 - 1) 2773320623 = 1"
  by code_simp

lemma p2773320623_exp: "powm (barrett 2773320623 6651500703 31 33) 2 569003 = 1853023467"
  by code_simp

lemma p2773320623_one: "powm (barrett 2773320623 6651500703 31 33) 1853023467 4874 mod 2773320623 = 1"
  by code_simp

lemma prime_2773320623: "primeZ 2773320623"
  by (rule pock1 [where rd = "barrett 2773320623 6651500703 31 33" and a = 2 and s = 569003 and r = 4874,
        OF rd_p2773320623 _ prime_569003 _ _ _ p2773320623_gcd p2773320623_exp p2773320623_one]) simp_all

lemma rd_p72106336199: "(barrett 72106336199 261966796917 36 38) v mod 72106336199 = v mod 72106336199"
  by (rule barrett_mod)

lemma p72106336199_gcd: "gcd (powm (barrett 72106336199 261966796917 36 38) 2 26 mod 72106336199 - 1) 72106336199 = 1"
  by code_simp

lemma p72106336199_exp: "powm (barrett 72106336199 261966796917 36 38) 2 2773320623 = 58700762603"
  by code_simp

lemma p72106336199_one: "powm (barrett 72106336199 261966796917 36 38) 58700762603 26 mod 72106336199 = 1"
  by code_simp

lemma prime_72106336199: "primeZ 72106336199"
  by (rule pock1 [where rd = "barrett 72106336199 261966796917 36 38" and a = 2 and s = 2773320623 and r = 26,
        OF rd_p72106336199 _ prime_2773320623 _ _ _ p72106336199_gcd p72106336199_exp p72106336199_one]) simp_all

lemma rd_p1919519569386763: "(barrett 1919519569386763 2641599742863181 50 52) v mod 1919519569386763 = v mod 1919519569386763"
  by (rule barrett_mod)

lemma p1919519569386763_cop: "gcd (7::int) 8574133 = 1"
  by code_simp

lemma p1919519569386763_exp1: "powm (barrett 1919519569386763 2641599742863181 50 52) 2 (31981902 * 8574133) = 1124719358789780"
  by code_simp

lemma p1919519569386763_gcd1: "gcd ((1124719358789780::int) mod 1919519569386763 - 1) 1919519569386763 = 1"
  by code_simp

lemma p1919519569386763_exp2: "powm (barrett 1919519569386763 2641599742863181 50 52) 2 (31981902 * 7) = 1059928654987441"
  by code_simp

lemma p1919519569386763_gcd2: "gcd ((1059928654987441::int) mod 1919519569386763 - 1) 1919519569386763 = 1"
  by code_simp

lemma p1919519569386763_one: "powm (barrett 1919519569386763 2641599742863181 50 52) 1124719358789780 7 mod 1919519569386763 = 1"
  by code_simp

lemma prime_1919519569386763: "primeZ 1919519569386763"
  by (rule pock2 [where rd = "barrett 1919519569386763 2641599742863181 50 52" and a = 2 and ?s1.0 = 7 and ?s2.0 = 8574133 and r = 31981902,
        OF rd_p1919519569386763 _ prime_7 prime_8574133 p1919519569386763_cop _ _ _ p1919519569386763_exp1 p1919519569386763_gcd1 p1919519569386763_exp2 p1919519569386763_gcd2 p1919519569386763_one]) simp_all

lemma rd_r55: "(barrett 31757755568855353 40874242885939986 54 56) v mod 31757755568855353 = v mod 31757755568855353"
  by (rule barrett_mod)

lemma r55_cop: "gcd (4153::int) 430751 = 1"
  by code_simp

lemma r55_exp1: "powm (barrett 31757755568855353 40874242885939986 54 56) 2 (17752584 * 430751) = 28256283979054930"
  by code_simp

lemma r55_gcd1: "gcd ((28256283979054930::int) mod 31757755568855353 - 1) 31757755568855353 = 1"
  by code_simp

lemma r55_exp2: "powm (barrett 31757755568855353 40874242885939986 54 56) 2 (17752584 * 4153) = 15280470251845350"
  by code_simp

lemma r55_gcd2: "gcd ((15280470251845350::int) mod 31757755568855353 - 1) 31757755568855353 = 1"
  by code_simp

lemma r55_one: "powm (barrett 31757755568855353 40874242885939986 54 56) 28256283979054930 4153 mod 31757755568855353 = 1"
  by code_simp

lemma prime_r55: "primeZ 31757755568855353"
  by (rule pock2 [where rd = "barrett 31757755568855353 40874242885939986 54 56" and a = 2 and ?s1.0 = 4153 and ?s2.0 = 430751 and r = 17752584,
        OF rd_r55 _ prime_4153 prime_430751 r55_cop _ _ _ r55_exp1 r55_gcd1 r55_exp2 r55_gcd2 r55_one]) simp_all

lemma rd_r116: "(barrett 75445702479781427272750846543864801 91479648541149864891604479769993730 115 117) v mod 75445702479781427272750846543864801 = v mod 75445702479781427272750846543864801"
  by (rule barrett_mod)

lemma r116_cop: "gcd (72106336199::int) 1919519569386763 = 1"
  by code_simp

lemma r116_exp1: "powm (barrett 75445702479781427272750846543864801 91479648541149864891604479769993730 115 117) 2 (545090400 * 1919519569386763) = 71619851993489548214160924360205394"
  by code_simp

lemma r116_gcd1: "gcd ((71619851993489548214160924360205394::int) mod 75445702479781427272750846543864801 - 1) 75445702479781427272750846543864801 = 1"
  by code_simp

lemma r116_exp2: "powm (barrett 75445702479781427272750846543864801 91479648541149864891604479769993730 115 117) 2 (545090400 * 72106336199) = 56747016255153332959347766392083459"
  by code_simp

lemma r116_gcd2: "gcd ((56747016255153332959347766392083459::int) mod 75445702479781427272750846543864801 - 1) 75445702479781427272750846543864801 = 1"
  by code_simp

lemma r116_one: "powm (barrett 75445702479781427272750846543864801 91479648541149864891604479769993730 115 117) 71619851993489548214160924360205394 72106336199 mod 75445702479781427272750846543864801 = 1"
  by code_simp

lemma prime_r116: "primeZ 75445702479781427272750846543864801"
  by (rule pock2 [where rd = "barrett 75445702479781427272750846543864801 91479648541149864891604479769993730 115 117" and a = 2 and ?s1.0 = 72106336199 and ?s2.0 = 1919519569386763 and r = 545090400,
        OF rd_r116 _ prime_72106336199 prime_1919519569386763 r116_cop _ _ _ r116_exp1 r116_gcd1 r116_exp2 r116_gcd2 r116_one]) simp_all

lemma rd_q236: "(fold2 20) v mod 74058212732561358302231226437062788676166966415465897661863160754340907 = v mod 74058212732561358302231226437062788676166966415465897661863160754340907"
proof (rule fold2_mod)
  have "(2::int) ^ 255 - 20 = 74058212732561358302231226437062788676166966415465897661863160754340907 * 781764" by simp
  then show "(74058212732561358302231226437062788676166966415465897661863160754340907::int) dvd 2 ^ 255 - 20" by (rule dvdI)
qed

lemma q236_cop: "gcd (31757755568855353::int) 75445702479781427272750846543864801 = 1"
  by code_simp

lemma q236_exp1: "powm (fold2 20) 2 (30909282119527343802 * 75445702479781427272750846543864801) = 33385862957563011092779414248155331780897849311402816601251314149509374492300"
  by code_simp

lemma q236_gcd1: "gcd ((33385862957563011092779414248155331780897849311402816601251314149509374492300::int) mod 74058212732561358302231226437062788676166966415465897661863160754340907 - 1) 74058212732561358302231226437062788676166966415465897661863160754340907 = 1"
  by code_simp

lemma q236_exp2: "powm (fold2 20) 2 (30909282119527343802 * 31757755568855353) = 54174540803231134683060494650026597741865019527785709117939538589068012509744"
  by code_simp

lemma q236_gcd2: "gcd ((54174540803231134683060494650026597741865019527785709117939538589068012509744::int) mod 74058212732561358302231226437062788676166966415465897661863160754340907 - 1) 74058212732561358302231226437062788676166966415465897661863160754340907 = 1"
  by code_simp

lemma q236_one: "powm (fold2 20) 33385862957563011092779414248155331780897849311402816601251314149509374492300 31757755568855353 mod 74058212732561358302231226437062788676166966415465897661863160754340907 = 1"
  by code_simp

lemma prime_q236: "primeZ 74058212732561358302231226437062788676166966415465897661863160754340907"
  by (rule pock2 [where rd = "fold2 20" and a = 2 and ?s1.0 = 31757755568855353 and ?s2.0 = 75445702479781427272750846543864801 and r = 30909282119527343802,
        OF rd_q236 _ prime_r55 prime_r116 q236_cop _ _ _ q236_exp1 q236_gcd1 q236_exp2 q236_gcd2 q236_one]) simp_all

lemma rd_fieldPrime: "(fold2 19) v mod 57896044618658097711785492504343953926634992332820282019728792003956564819949 = v mod 57896044618658097711785492504343953926634992332820282019728792003956564819949"
  by (rule fold2_mod) simp

lemma fieldPrime_gcd: "gcd (powm (fold2 19) 2 781764 mod 57896044618658097711785492504343953926634992332820282019728792003956564819949 - 1) 57896044618658097711785492504343953926634992332820282019728792003956564819949 = 1"
  by code_simp

lemma fieldPrime_exp: "powm (fold2 19) 2 74058212732561358302231226437062788676166966415465897661863160754340907 = 655862763270043727290287243553288086806695122283546195695411594672396874028"
  by code_simp

lemma fieldPrime_one: "powm (fold2 19) 655862763270043727290287243553288086806695122283546195695411594672396874028 781764 mod 57896044618658097711785492504343953926634992332820282019728792003956564819949 = 1"
  by code_simp

lemma prime_fieldPrime_value: "primeZ 57896044618658097711785492504343953926634992332820282019728792003956564819949"
  by (rule pock1 [where rd = "fold2 19" and a = 2 and s = 74058212732561358302231226437062788676166966415465897661863160754340907 and r = 781764,
        OF rd_fieldPrime _ prime_q236 _ _ _ fieldPrime_gcd fieldPrime_exp fieldPrime_one]) simp_all

lemma prime_fieldPrime: "primeZ fieldPrime"
  using prime_fieldPrime_value by (simp add: fieldPrime_value)

section \<open>The field of residues, inversion and affine recovery\<close>

lemma card_fp: "int CARD(fp) = fieldPrime"
  by (simp add: fieldPrime_value)

lemma fp_of_reduce: "fp_of (reduce v) = fp_of v"
  unfolding fp_of_def reduce_def card_fp [symmetric]
  by (simp add: bit1.of_int_eq)

lemma fp_of_eq_iff: "fp_of a = fp_of b \<longleftrightarrow> reduce a = reduce b"
proof -
  have "Rep_bit1 (of_int a :: fp) = a mod int CARD(fp)" for a
    by (simp only: bit1.of_int_eq bit1.Rep_Abs_mod)
  then have "Rep_bit1 (fp_of a) = reduce a" for a
    by (simp only: fp_of_def reduce_def card_fp)
  then show ?thesis
    by (metis fp_of_reduce)
qed

lemma fp_of_simps:
  "fp_of (a + b) = fp_of a + fp_of b"
  "fp_of (a - b) = fp_of a - fp_of b"
  "fp_of (a * b) = fp_of a * fp_of b"
  "fp_of (- a) = - fp_of a"
  "fp_of 0 = 0" "fp_of 1 = 1"
  "fp_of (numeral k) = numeral k"
  by (simp_all add: fp_of_def)

lemma fp_of_fieldPrime: "fp_of fieldPrime = 0"
  using fp_of_eq_iff [of fieldPrime 0] by (simp add: reduce_def fp_of_simps)

lemma fp_of_zero_iff: "fp_of v = 0 \<longleftrightarrow> reduce v = 0"
  using fp_of_eq_iff [of v 0] by (simp add: fp_of_simps reduce_0)

lemma fp_surj: "\<exists>v. x = fp_of v" for x :: fp
  by (cases x rule: bit1_cases) (auto simp: fp_of_def)

lemma reduce_eqI: "fp_of a = fp_of b \<Longrightarrow> reduce a = reduce b"
  by (simp add: fp_of_eq_iff)

lemma fp_of_inj_reduced: "reduced a \<Longrightarrow> reduced b \<Longrightarrow> fp_of a = fp_of b \<Longrightarrow> a = b"
  by (simp add: fp_of_eq_iff reduced_def reduce_def)

lemma xgcd_correct:
  fixes w :: fp
  shows "0 \<le> a \<Longrightarrow> 0 \<le> b \<Longrightarrow> xgcd a b s t = (g, u) \<Longrightarrow> fp_of a = fp_of s * w \<Longrightarrow> fp_of b = fp_of t * w
     \<Longrightarrow> g = gcd a b \<and> fp_of g = fp_of u * w"
proof (induction a b s t rule: xgcd.induct)
  case (1 a b s t)
  show ?case
  proof (cases "b \<le> 0")
    case True
    with "1.prems" have b: "b = 0" by simp
    have "xgcd a b s t = (a, s)" using True by (simp add: xgcd.simps [of a b])
    then show ?thesis using "1.prems" b by simp
  next
    case False
    have rec: "xgcd b (a mod b) t (s - (a div b) * t) = (g, u)"
      using False "1.prems"(3) by (simp add: xgcd.simps [of a b])
    have "a mod b = a - (a div b) * b" by (simp add: minus_div_mult_eq_mod)
    then have "fp_of (a mod b) = fp_of a - fp_of (a div b) * fp_of b"
      by (simp add: fp_of_simps)
    also have "\<dots> = fp_of (s - (a div b) * t) * w"
      using "1.prems"(4,5) by (simp add: fp_of_simps algebra_simps)
    finally have inv: "fp_of (a mod b) = fp_of (s - (a div b) * t) * w" .
    have "g = gcd b (a mod b) \<and> fp_of g = fp_of u * w"
      using False "1.prems" by (intro "1.IH" [OF False _ _ rec _ inv]) auto
    moreover have "gcd b (a mod b) = gcd a b"
      by (rule gcd_red_int [symmetric])
    ultimately show ?thesis by auto
  qed
qed

lemma coprime_fieldPrime:
  assumes "reduce v \<noteq> 0"
  shows "gcd fieldPrime (reduce v) = 1"
proof -
  let ?g = "gcd fieldPrime (reduce v)"
  have "0 < ?g" using fieldPrime_pos by (simp add: gcd_pos_int)
  moreover have "?g dvd fieldPrime" by simp
  ultimately have "?g = 1 \<or> ?g = fieldPrime"
    using prime_fieldPrime by (auto simp: primeZ_def)
  moreover have "?g \<noteq> fieldPrime"
  proof
    assume "?g = fieldPrime"
    then have "fieldPrime dvd reduce v" using gcd_dvd2 [of fieldPrime "reduce v"] by simp
    moreover have "0 < reduce v" "reduce v < fieldPrime" using assms reduce_range [of v] by auto
    ultimately show False using zdvd_imp_le [of fieldPrime "reduce v"] by simp
  qed
  ultimately show ?thesis by simp
qed

lemma inverseOf_correct:
  assumes "reduce v \<noteq> 0"
  shows "\<exists>w. inverseOf v = Inr w \<and> fp_of v * fp_of w = 1"
proof -
  obtain g u where gu: "xgcd fieldPrime (reduce v) 0 1 = (g, u)"
    by (cases "xgcd fieldPrime (reduce v) 0 1")
  have "g = gcd fieldPrime (reduce v) \<and> fp_of g = fp_of u * fp_of v"
    using fieldPrime_pos reduce_range [of v]
    by (intro xgcd_correct [OF _ _ gu]) (simp_all add: fp_of_simps fp_of_fieldPrime fp_of_reduce)
  then have "fp_of u * fp_of v = 1"
    using coprime_fieldPrime [OF assms] by (auto simp: fp_of_simps)
  moreover have "inverseOf v = Inr (reduce u)"
    using assms gu by (simp add: inverseOf_def)
  ultimately show ?thesis by (simp add: fp_of_reduce mult.commute)
qed

lemma fp_nonzero_mult:
  fixes x y :: fp
  assumes "x \<noteq> 0" "y \<noteq> 0"
  shows "x * y \<noteq> 0"
proof
  assume xy: "x * y = 0"
  obtain v where v: "x = fp_of v" using fp_surj by blast
  then have "reduce v \<noteq> 0" using assms(1) by (simp add: fp_of_zero_iff)
  then obtain w where "fp_of v * fp_of w = 1" using inverseOf_correct by blast
  then have "fp_of w * x = 1" by (simp add: v mult.commute)
  then have "y = fp_of w * x * y" by simp
  also have "\<dots> = fp_of w * (x * y)" by (simp only: mult.assoc)
  finally show False using xy assms(2) by simp
qed

lemma fp_four: "(4::fp) \<noteq> 0"
proof -
  have "fp_of 4 \<noteq> 0" unfolding fp_of_zero_iff by (simp add: reduce_def fieldPrime_value)
  then show ?thesis by (simp add: fp_of_simps)
qed

lemma X_value:
  assumes "reduce z \<noteq> 0"
  shows "\<exists>r. X x z = Inr r \<and> reduced r \<and> fp_of r * fp_of z = fp_of x"
proof -
  obtain w where w: "inverseOf z = Inr w" "fp_of z * fp_of w = 1"
    using inverseOf_correct [OF assms] by blast
  have "fp_of (reduce (x * w)) * fp_of z = fp_of x * (fp_of z * fp_of w)"
    by (simp add: fp_of_reduce fp_of_simps mult_ac)
  then show ?thesis
    using w by (simp add: X_def reduced_reduce)
qed

lemma X_unique:
  assumes "X x z = Inr r" "reduced c" "fp_of c * fp_of z = fp_of x"
  shows "r = c"
proof -
  have nz: "reduce z \<noteq> 0" using assms(1) by (auto simp: X_def inverseOf_def split: if_splits)
  obtain r' where r': "X x z = Inr r'" "reduced r'" "fp_of r' * fp_of z = fp_of x"
    using X_value [OF nz] by blast
  obtain w where w: "fp_of z * fp_of w = 1" using inverseOf_correct [OF nz] by blast
  have "fp_of r' = fp_of r' * (fp_of z * fp_of w)" using w by simp
  also have "\<dots> = (fp_of r' * fp_of z) * fp_of w" by (simp only: mult.assoc)
  also have "\<dots> = (fp_of c * fp_of z) * fp_of w" using r'(3) assms(3) by simp
  also have "\<dots> = fp_of c * (fp_of z * fp_of w)" by (simp only: mult.assoc)
  also have "\<dots> = fp_of c" using w by simp
  finally have "r' = c" using r'(2) assms(2) by (intro fp_of_inj_reduced)
  then show ?thesis using r'(1) assms(1) by simp
qed

section \<open>The ladder on the scalars 1 and 2\<close>

text \<open>The state while only zero bits of the scalar have been read.\<close>

lemma ladder_idle_init: "ladder_idle X0 (ladder_init X0)"
  by (simp add: ladder_idle_def ladder_init_def fp_of_simps)

lemma ladder_idle_step:
  assumes "ladder_idle X0 s" "\<not> bit n (nat t)"
  shows "ladder_idle X0 (ladder_step X0 n t s)"
proof -
  let ?c = "x_3 s" and ?d = "z_3 s"
  have s: "x_2 s = 1" "z_2 s = 0" "swap s = 0" "fp_of ?c = fp_of X0 * fp_of ?d"
    "fp_of X0 = 0 \<or> fp_of ?d \<noteq> 0"
    using assms(1) by (simp_all add: ladder_idle_def)
  have step: "ladder_step X0 n t s = ladder_calc X0 1 0 ?c ?d 0"
    using assms(2) s by (simp add: ladder_step_calc)
  have x3: "fp_of (x_3 (ladder_calc X0 1 0 ?c ?d 0)) = 4 * fp_of ?c * fp_of ?c"
    by (simp add: ladder_calc_def fp_of_reduce fp_of_simps algebra_simps)
  have z3: "fp_of (z_3 (ladder_calc X0 1 0 ?c ?d 0)) = 4 * fp_of X0 * fp_of ?d * fp_of ?d"
    by (simp add: ladder_calc_def fp_of_reduce fp_of_simps algebra_simps)
  have nz: "4 * fp_of X0 * fp_of ?d * fp_of ?d \<noteq> 0" if "fp_of X0 \<noteq> 0"
  proof -
    have d: "fp_of ?d \<noteq> 0" using s(5) that by simp
    have "4 * fp_of X0 \<noteq> 0" using fp_four that by (rule fp_nonzero_mult)
    then have "4 * fp_of X0 * fp_of ?d \<noteq> 0" using d by (rule fp_nonzero_mult)
    then show ?thesis using d by (rule fp_nonzero_mult)
  qed
  show ?thesis
    unfolding step ladder_idle_def x3 z3
    using ladder_calc_infinity [of X0 ?c ?d 0] nz by (auto simp: s(4) algebra_simps)
qed

lemma ladder_idle_run:
  assumes "\<And>t'. t - int k < t' \<Longrightarrow> t' \<le> t \<Longrightarrow> \<not> bit n (nat t')"
  shows "ladder_idle X0 (ladder_run X0 n t k (ladder_init X0))"
  by (rule ladder_run_invariant) (use assms in \<open>auto intro: ladder_idle_init ladder_idle_step\<close>)

text \<open>The first one bit: the accumulators are swapped.\<close>

lemma ladder_first_bit:
  assumes "ladder_idle X0 s" "bit n (nat t)"
  shows "fp_of (x_3 (ladder_step X0 n t s)) = 4 * fp_of X0 * fp_of X0 * fp_of (z_3 s) * fp_of (z_3 s)"
    and "fp_of (z_3 (ladder_step X0 n t s)) = 4 * fp_of X0 * fp_of (z_3 s) * fp_of (z_3 s)"
    and "swap (ladder_step X0 n t s) = 1"
proof -
  let ?c = "x_3 s" and ?d = "z_3 s"
  have s: "x_2 s = 1" "z_2 s = 0" "swap s = 0" "fp_of ?c = fp_of X0 * fp_of ?d"
    using assms(1) by (simp_all add: ladder_idle_def)
  have step: "ladder_step X0 n t s = ladder_calc X0 ?c ?d 1 0 1"
    using assms(2) s by (simp add: ladder_step_calc)
  show "fp_of (x_3 (ladder_step X0 n t s)) = 4 * fp_of X0 * fp_of X0 * fp_of ?d * fp_of ?d"
    unfolding step by (simp add: ladder_calc_def fp_of_reduce fp_of_simps s(4) algebra_simps)
  show "fp_of (z_3 (ladder_step X0 n t s)) = 4 * fp_of X0 * fp_of ?d * fp_of ?d"
    unfolding step by (simp add: ladder_calc_def fp_of_reduce fp_of_simps algebra_simps)
  show "swap (ladder_step X0 n t s) = 1"
    unfolding step by (simp add: ladder_calc_def)
qed

lemma bit_one_int: "bit (1::int) k \<longleftrightarrow> k = 0"
  by (simp add: bit_1_iff)

lemma bit_two_int: "bit (2::int) k \<longleftrightarrow> k = 1"
  by (simp add: bit_2_iff)

lemma pointDouble_form:
  assumes "fp_of x = u * fp_of z"
  shows "fp_of (ratio_x (pointDouble x z)) = fp_of z ^ 4 * dbl_num u"
    and "fp_of (ratio_z (pointDouble x z)) = fp_of z ^ 4 * dbl_den u"
  by (simp_all add: pointDouble_def Let_def fp_of_reduce fp_of_simps assms doubleA24_value
      dbl_num_def dbl_den_def power4_eq_xxxx algebra_simps)

lemma ladder_calc_double_form:
  assumes "fp_of a = u * fp_of b"
  shows "fp_of (x_2 (ladder_calc x_1 a b c d k)) = fp_of b ^ 4 * dbl_num u"
    and "fp_of (z_2 (ladder_calc x_1 a b c d k)) = fp_of b ^ 4 * dbl_den u"
  by (simp_all add: ladder_calc_def fp_of_reduce fp_of_simps assms multA24_value
      dbl_num_def dbl_den_def power4_eq_xxxx algebra_simps)

lemma dbl_den_zero: "dbl_den 0 = 0"
  by (simp add: dbl_den_def)

lemma fp_power4_nonzero: "x \<noteq> 0 \<Longrightarrow> x ^ 4 \<noteq> 0" for x :: fp
  by (simp add: power4_eq_xxxx fp_nonzero_mult)

text \<open>The ladder for the scalar 1.\<close>

lemma ladder_run_one: "ladder_run x_1 n t 1 s = ladder_step x_1 n t s"
  unfolding One_nat_def by simp

lemma pointMult_one_form:
  obtains s where "ladder_idle X0 s"
    and "ratio_x (pointMult X0 1) = x_3 (ladder_step X0 1 0 s)"
    and "ratio_z (pointMult X0 1) = z_3 (ladder_step X0 1 0 s)"
proof -
  define s where "s = ladder_run X0 1 255 255 (ladder_init X0)"
  have idle: "ladder_idle X0 s"
    unfolding s_def by (rule ladder_idle_run) (simp add: bit_one_int)
  have "ladder_run X0 1 255 (255 + 1) (ladder_init X0) = ladder_step X0 1 0 s"
    unfolding ladder_run_add s_def by (simp add: ladder_run_one)
  then have run: "ladder_run X0 1 255 256 (ladder_init X0) = ladder_step X0 1 0 s" by simp
  have "swap (ladder_step X0 1 0 s) = 1"
    by (rule ladder_first_bit(3) [OF idle]) simp
  then have "ratio_x (pointMult X0 1) = x_3 (ladder_step X0 1 0 s)"
    "ratio_z (pointMult X0 1) = z_3 (ladder_step X0 1 0 s)"
    by (simp_all add: pointMult_run run Let_def)
  with idle show ?thesis by (rule that)
qed

lemma pointMult_one_ratio:
  "fp_of (ratio_x (pointMult X0 1)) = fp_of X0 * fp_of (ratio_z (pointMult X0 1))"
proof -
  obtain s where s: "ladder_idle X0 s"
    "ratio_x (pointMult X0 1) = x_3 (ladder_step X0 1 0 s)"
    "ratio_z (pointMult X0 1) = z_3 (ladder_step X0 1 0 s)"
    by (rule pointMult_one_form)
  have b: "bit (1::int) (nat 0)" by simp
  show ?thesis
    unfolding s(2,3) ladder_first_bit(1,2) [OF s(1) b] by (simp add: algebra_simps)
qed

lemma pointMult_one_nonzero:
  assumes "reduce X0 \<noteq> 0"
  shows "reduce (ratio_z (pointMult X0 1)) \<noteq> 0"
proof -
  obtain s where s: "ladder_idle X0 s"
    "ratio_x (pointMult X0 1) = x_3 (ladder_step X0 1 0 s)"
    "ratio_z (pointMult X0 1) = z_3 (ladder_step X0 1 0 s)"
    by (rule pointMult_one_form)
  have b: "bit (1::int) (nat 0)" by simp
  have u: "fp_of X0 \<noteq> 0" using assms by (simp add: fp_of_zero_iff)
  then have d: "fp_of (z_3 s) \<noteq> 0" using s(1) by (simp add: ladder_idle_def)
  have "4 * fp_of X0 \<noteq> 0" using fp_four u by (rule fp_nonzero_mult)
  then have "4 * fp_of X0 * fp_of (z_3 s) \<noteq> 0" using d by (rule fp_nonzero_mult)
  then have "4 * fp_of X0 * fp_of (z_3 s) * fp_of (z_3 s) \<noteq> 0" using d by (rule fp_nonzero_mult)
  then have "fp_of (ratio_z (pointMult X0 1)) \<noteq> 0"
    unfolding s(3) ladder_first_bit(2) [OF s(1) b] .
  then show ?thesis by (simp add: fp_of_zero_iff)
qed

lemma pointMult_two_form:
  obtains s where "ladder_idle X0 s"
    and "ratio_x (pointMult X0 2) = x_2 (ladder_step X0 2 0 (ladder_step X0 2 1 s))"
    and "ratio_z (pointMult X0 2) = z_2 (ladder_step X0 2 0 (ladder_step X0 2 1 s))"
    and "ladder_step X0 2 0 (ladder_step X0 2 1 s) =
         ladder_calc X0 (x_3 (ladder_step X0 2 1 s)) (z_3 (ladder_step X0 2 1 s))
           (x_2 (ladder_step X0 2 1 s)) (z_2 (ladder_step X0 2 1 s)) 0"
proof -
  define s where "s = ladder_run X0 2 255 254 (ladder_init X0)"
  define s1 where "s1 = ladder_step X0 2 1 s"
  have idle: "ladder_idle X0 s"
    unfolding s_def by (rule ladder_idle_run) (simp add: bit_two_int)
  have "ladder_run X0 2 255 (254 + (1 + 1)) (ladder_init X0) = ladder_step X0 2 0 s1"
    unfolding ladder_run_add s_def s1_def by (simp add: ladder_run_one)
  then have run: "ladder_run X0 2 255 256 (ladder_init X0) = ladder_step X0 2 0 s1" by simp
  have b1: "bit (2::int) (nat 1)" by (simp add: bit_two_int)
  have sw1: "swap s1 = 1"
    unfolding s1_def by (rule ladder_first_bit(3) [OF idle b1])
  have step: "ladder_step X0 2 0 s1 = ladder_calc X0 (x_3 s1) (z_3 s1) (x_2 s1) (z_2 s1) 0"
    using sw1 by (simp add: ladder_step_calc bit_two_int)
  then have "swap (ladder_step X0 2 0 s1) = 0" by (simp add: ladder_calc_def)
  then have "ratio_x (pointMult X0 2) = x_2 (ladder_step X0 2 0 s1)"
    "ratio_z (pointMult X0 2) = z_2 (ladder_step X0 2 0 s1)"
    by (simp_all add: pointMult_run run Let_def)
  with idle show ?thesis using step unfolding s1_def by (rule that)
qed

text \<open>
  The ladder for the scalar 2 returns the doubling formula applied to a representative
  of the input point.
\<close>

lemma pointMult_two_ratio:
  assumes "fp_of X0 \<noteq> 0"
  obtains B where "B \<noteq> 0"
    and "fp_of (ratio_x (pointMult X0 2)) = B ^ 4 * dbl_num (fp_of X0)"
    and "fp_of (ratio_z (pointMult X0 2)) = B ^ 4 * dbl_den (fp_of X0)"
proof -
  obtain s where s: "ladder_idle X0 s"
    "ratio_x (pointMult X0 2) = x_2 (ladder_step X0 2 0 (ladder_step X0 2 1 s))"
    "ratio_z (pointMult X0 2) = z_2 (ladder_step X0 2 0 (ladder_step X0 2 1 s))"
    "ladder_step X0 2 0 (ladder_step X0 2 1 s) =
         ladder_calc X0 (x_3 (ladder_step X0 2 1 s)) (z_3 (ladder_step X0 2 1 s))
           (x_2 (ladder_step X0 2 1 s)) (z_2 (ladder_step X0 2 1 s)) 0"
    by (rule pointMult_two_form)
  define s1 where "s1 = ladder_step X0 2 1 s"
  have b1: "bit (2::int) (nat 1)" by (simp add: bit_two_int)
  have a: "fp_of (x_3 s1) = 4 * fp_of X0 * fp_of X0 * fp_of (z_3 s) * fp_of (z_3 s)"
    and b: "fp_of (z_3 s1) = 4 * fp_of X0 * fp_of (z_3 s) * fp_of (z_3 s)"
    unfolding s1_def by (rule ladder_first_bit [OF s(1) b1])+
  have ab: "fp_of (x_3 s1) = fp_of X0 * fp_of (z_3 s1)"
    unfolding a b by (simp add: algebra_simps)
  have d: "fp_of (z_3 s) \<noteq> 0" using s(1) assms by (simp add: ladder_idle_def)
  have "4 * fp_of X0 \<noteq> 0" using fp_four assms by (rule fp_nonzero_mult)
  then have "4 * fp_of X0 * fp_of (z_3 s) \<noteq> 0" using d by (rule fp_nonzero_mult)
  then have "4 * fp_of X0 * fp_of (z_3 s) * fp_of (z_3 s) \<noteq> 0" using d by (rule fp_nonzero_mult)
  then have nz: "fp_of (z_3 s1) \<noteq> 0" unfolding b .
  have last: "ladder_step X0 2 0 s1 = ladder_calc X0 (x_3 s1) (z_3 s1) (x_2 s1) (z_2 s1) 0"
    unfolding s1_def by (rule s(4))
  have rx: "ratio_x (pointMult X0 2) = x_2 (ladder_calc X0 (x_3 s1) (z_3 s1) (x_2 s1) (z_2 s1) 0)"
    and rz: "ratio_z (pointMult X0 2) = z_2 (ladder_calc X0 (x_3 s1) (z_3 s1) (x_2 s1) (z_2 s1) 0)"
    using s(2,3) last by (simp_all add: s1_def)
  show ?thesis
  proof (rule that [OF nz])
    show "fp_of (ratio_x (pointMult X0 2)) = fp_of (z_3 s1) ^ 4 * dbl_num (fp_of X0)"
      unfolding rx by (rule ladder_calc_double_form(1) [OF ab])
    show "fp_of (ratio_z (pointMult X0 2)) = fp_of (z_3 s1) ^ 4 * dbl_den (fp_of X0)"
      unfolding rz by (rule ladder_calc_double_form(2) [OF ab])
  qed
qed

section \<open>The ladder on the scalar of the test vector\<close>

lemma fr_reduce: "fr v = reduce v"
proof -
  let ?u = "fold2 19 v"
  have u: "?u mod fieldPrime = v mod fieldPrime"
    by (rule fold2_mod) (simp add: fieldPrime_def)
  have "canon v ?u mod fieldPrime = v mod fieldPrime"
    using u by (simp add: canon_def)
  moreover have "0 \<le> canon v ?u \<and> canon v ?u < fieldPrime"
    using fieldPrime_pos by (simp add: canon_def)
  ultimately show ?thesis
    by (simp add: fr_def reduce_def)
qed

lemma fp_of_subm: "fp_of (subm a b) = fp_of a - fp_of b"
  by (simp add: subm_def fp_of_simps fp_of_fieldPrime)

lemma ladder_calc_fast [code]: "ladder_calc x_1 a b c d k = fast_calc x_1 a b c d k"
  unfolding ladder_calc_def fast_calc_def fast_calc2_def fast_calc3_def fast_calc4_def
    fr_reduce kmul_eq ksqr_eq
  by (simp add: reduce_eqI fp_of_simps fp_of_reduce fp_of_subm algebra_simps)

text \<open>
  From here on the loop body and \<open>reduce\<close> are evaluated through these equations.
\<close>

declare ladder_step_calc [code]
declare fieldPrime_value [code]
declare multA24_value [code]

lemma reduce_fast [code]: "reduce v = fr v"
  by (simp add: fr_reduce)

text \<open>The 256 iterations, 16 at a time.\<close>

lemma rfc_segment_0:
  "ladder_run 9 rfc_scalar 255 16 (rfc_checkpoints ! 0) = rfc_checkpoints ! 1"
  by code_simp

lemma rfc_segment_1:
  "ladder_run 9 rfc_scalar 239 16 (rfc_checkpoints ! 1) = rfc_checkpoints ! 2"
  by code_simp

lemma rfc_segment_2:
  "ladder_run 9 rfc_scalar 223 16 (rfc_checkpoints ! 2) = rfc_checkpoints ! 3"
  by code_simp

lemma rfc_segment_3:
  "ladder_run 9 rfc_scalar 207 16 (rfc_checkpoints ! 3) = rfc_checkpoints ! 4"
  by code_simp

lemma rfc_segment_4:
  "ladder_run 9 rfc_scalar 191 16 (rfc_checkpoints ! 4) = rfc_checkpoints ! 5"
  by code_simp

lemma rfc_segment_5:
  "ladder_run 9 rfc_scalar 175 16 (rfc_checkpoints ! 5) = rfc_checkpoints ! 6"
  by code_simp

lemma rfc_segment_6:
  "ladder_run 9 rfc_scalar 159 16 (rfc_checkpoints ! 6) = rfc_checkpoints ! 7"
  by code_simp

lemma rfc_segment_7:
  "ladder_run 9 rfc_scalar 143 16 (rfc_checkpoints ! 7) = rfc_checkpoints ! 8"
  by code_simp

lemma rfc_segment_8:
  "ladder_run 9 rfc_scalar 127 16 (rfc_checkpoints ! 8) = rfc_checkpoints ! 9"
  by code_simp

lemma rfc_segment_9:
  "ladder_run 9 rfc_scalar 111 16 (rfc_checkpoints ! 9) = rfc_checkpoints ! 10"
  by code_simp

lemma rfc_segment_10:
  "ladder_run 9 rfc_scalar 95 16 (rfc_checkpoints ! 10) = rfc_checkpoints ! 11"
  by code_simp

lemma rfc_segment_11:
  "ladder_run 9 rfc_scalar 79 16 (rfc_checkpoints ! 11) = rfc_checkpoints ! 12"
  by code_simp

lemma rfc_segment_12:
  "ladder_run 9 rfc_scalar 63 16 (rfc_checkpoints ! 12) = rfc_checkpoints ! 13"
  by code_simp

lemma rfc_segment_13:
  "ladder_run 9 rfc_scalar 47 16 (rfc_checkpoints ! 13) = rfc_checkpoints ! 14"
  by code_simp

lemma rfc_segment_14:
  "ladder_run 9 rfc_scalar 31 16 (rfc_checkpoints ! 14) = rfc_checkpoints ! 15"
  by code_simp

lemma rfc_segment_15:
  "ladder_run 9 rfc_scalar 15 16 (rfc_checkpoints ! 15) = rfc_checkpoints ! 16"
  by code_simp

lemma rfc_run: "ladder_run 9 rfc_scalar 255 256 (ladder_init 9) = rfc_checkpoints ! 16"
proof -
  have c0: "ladder_run 9 rfc_scalar 255 0 (ladder_init 9) = rfc_checkpoints ! 0"
    by (simp add: rfc_checkpoints_def ladder_init_def)
  have c1: "ladder_run 9 rfc_scalar 255 16 (ladder_init 9) = rfc_checkpoints ! 1"
    using ladder_run_add [of 9 rfc_scalar 255 0 16 "ladder_init 9"] c0 rfc_segment_0 by simp
  have c2: "ladder_run 9 rfc_scalar 255 32 (ladder_init 9) = rfc_checkpoints ! 2"
    using ladder_run_add [of 9 rfc_scalar 255 16 16 "ladder_init 9"] c1 rfc_segment_1 by simp
  have c3: "ladder_run 9 rfc_scalar 255 48 (ladder_init 9) = rfc_checkpoints ! 3"
    using ladder_run_add [of 9 rfc_scalar 255 32 16 "ladder_init 9"] c2 rfc_segment_2 by simp
  have c4: "ladder_run 9 rfc_scalar 255 64 (ladder_init 9) = rfc_checkpoints ! 4"
    using ladder_run_add [of 9 rfc_scalar 255 48 16 "ladder_init 9"] c3 rfc_segment_3 by simp
  have c5: "ladder_run 9 rfc_scalar 255 80 (ladder_init 9) = rfc_checkpoints ! 5"
    using ladder_run_add [of 9 rfc_scalar 255 64 16 "ladder_init 9"] c4 rfc_segment_4 by simp
  have c6: "ladder_run 9 rfc_scalar 255 96 (ladder_init 9) = rfc_checkpoints ! 6"
    using ladder_run_add [of 9 rfc_scalar 255 80 16 "ladder_init 9"] c5 rfc_segment_5 by simp
  have c7: "ladder_run 9 rfc_scalar 255 112 (ladder_init 9) = rfc_checkpoints ! 7"
    using ladder_run_add [of 9 rfc_scalar 255 96 16 "ladder_init 9"] c6 rfc_segment_6 by simp
  have c8: "ladder_run 9 rfc_scalar 255 128 (ladder_init 9) = rfc_checkpoints ! 8"
    using ladder_run_add [of 9 rfc_scalar 255 112 16 "ladder_init 9"] c7 rfc_segment_7 by simp
  have c9: "ladder_run 9 rfc_scalar 255 144 (ladder_init 9) = rfc_checkpoints ! 9"
    using ladder_run_add [of 9 rfc_scalar 255 128 16 "ladder_init 9"] c8 rfc_segment_8 by simp
  have c10: "ladder_run 9 rfc_scalar 255 160 (ladder_init 9) = rfc_checkpoints ! 10"
    using ladder_run_add [of 9 rfc_scalar 255 144 16 "ladder_init 9"] c9 rfc_segment_9 by simp
  have c11: "ladder_run 9 rfc_scalar 255 176 (ladder_init 9) = rfc_checkpoints ! 11"
    using ladder_run_add [of 9 rfc_scalar 255 160 16 "ladder_init 9"] c10 rfc_segment_10 by simp
  have c12: "ladder_run 9 rfc_scalar 255 192 (ladder_init 9) = rfc_checkpoints ! 12"
    using ladder_run_add [of 9 rfc_scalar 255 176 16 "ladder_init 9"] c11 rfc_segment_11 by simp
  have c13: "ladder_run 9 rfc_scalar 255 208 (ladder_init 9) = rfc_checkpoints ! 13"
    using ladder_run_add [of 9 rfc_scalar 255 192 16 "ladder_init 9"] c12 rfc_segment_12 by simp
  have c14: "ladder_run 9 rfc_scalar 255 224 (ladder_init 9) = rfc_checkpoints ! 14"
    using ladder_run_add [of 9 rfc_scalar 255 208 16 "ladder_init 9"] c13 rfc_segment_13 by simp
  have c15: "ladder_run 9 rfc_scalar 255 240 (ladder_init 9) = rfc_checkpoints ! 15"
    using ladder_run_add [of 9 rfc_scalar 255 224 16 "ladder_init 9"] c14 rfc_segment_14 by simp
  have c16: "ladder_run 9 rfc_scalar 255 256 (ladder_init 9) = rfc_checkpoints ! 16"
    using ladder_run_add [of 9 rfc_scalar 255 240 16 "ladder_init 9"] c15 rfc_segment_15 by simp
  show ?thesis by (rule c16)
qed

lemma rfc_result:
  "pointMult 9 rfc_scalar =
     \<lparr>ratio_x = 17980815445801654560365419028253588120193932686991223651024104106391664027076,
      ratio_z = 9741104444401164300071298372822346822385336616294195133832286089939486048736\<rparr>"
  by (simp add: pointMult_run rfc_run rfc_checkpoints_def)

lemma rfc_recovery:
  "X 17980815445801654560365419028253588120193932686991223651024104106391664027076
     9741104444401164300071298372822346822385336616294195133832286089939486048736 =
   Inr 0x1e38e7905876ac1843f1f38bf9c6b7b2d4bf4f66e08bd54a6eca32567105cf76"
  by code_simp

lemma rfc_eval:
  "X (ratio_x (pointMult 9 rfc_scalar)) (ratio_z (pointMult 9 rfc_scalar)) =
   Inr 0x1e38e7905876ac1843f1f38bf9c6b7b2d4bf4f66e08bd54a6eca32567105cf76"
  by (simp only: rfc_result ratio.simps rfc_recovery)

section \<open>The claims\<close>

text \<open>
  Claim C1, as the code has it: \<open>pointMult\<close> on the base point 9 and the scalar
  \<open>0xa546e36bf0527c9d3b16154b82465edd62144c0ac1fc5a18506a2244ba449ac\<close>, followed by
  affine recovery, yields the field element
  \<open>0x1e38e7905876ac1843f1f38bf9c6b7b2d4bf4f66e08bd54a6eca32567105cf76\<close>. The code reads
  the scalar as it stands, as a number of 252 bits, most significant bit first.
\<close>

theorem rfc_vector_value:
  "X (ratio_x (pointMult 9 0xa546e36bf0527c9d3b16154b82465edd62144c0ac1fc5a18506a2244ba449ac))
     (ratio_z (pointMult 9 0xa546e36bf0527c9d3b16154b82465edd62144c0ac1fc5a18506a2244ba449ac)) =
   Inr 0x1e38e7905876ac1843f1f38bf9c6b7b2d4bf4f66e08bd54a6eca32567105cf76"
  using rfc_eval by (simp only: rfc_scalar_def)

text \<open>
  Claim C1 as stated fails: the recovered field element is not
  \<open>0xc3da55379de9c6908e94ea4df28d084f32eccf03491c71f754b4075577a2851\<close>.
\<close>

theorem rfc_vector_counterexample:
  "X (ratio_x (pointMult 9 0xa546e36bf0527c9d3b16154b82465edd62144c0ac1fc5a18506a2244ba449ac))
     (ratio_z (pointMult 9 0xa546e36bf0527c9d3b16154b82465edd62144c0ac1fc5a18506a2244ba449ac)) \<noteq>
   Inr 0xc3da55379de9c6908e94ea4df28d084f32eccf03491c71f754b4075577a2851"
  using rfc_eval by (simp add: rfc_scalar_def)

text \<open>
  Claim C2: for every X-coordinate \<open>X0\<close> that is a field element (in the range from
  0 to the field prime) and for which the \<open>z\<close> of the ratio \<open>pointMult(X0, 1)\<close> does not
  reduce to 0, affine recovery of \<open>pointMult(X0, 1)\<close> returns \<open>X0\<close> itself; and
  \<open>pointMult(9, 1)\<close> recovers to 9.
\<close>

theorem pointMult_one:
  "(reduced X0 \<and> reduce (ratio_z (pointMult X0 1)) \<noteq> 0 \<longrightarrow>
      X (ratio_x (pointMult X0 1)) (ratio_z (pointMult X0 1)) = Inr X0) \<and>
   X (ratio_x (pointMult 9 1)) (ratio_z (pointMult 9 1)) = Inr 9"
proof -
  have gen: "X (ratio_x (pointMult X0 1)) (ratio_z (pointMult X0 1)) = Inr X0"
    if red: "reduced X0" and nz: "reduce (ratio_z (pointMult X0 1)) \<noteq> 0" for X0
  proof -
    obtain r where r: "X (ratio_x (pointMult X0 1)) (ratio_z (pointMult X0 1)) = Inr r"
      using X_value [OF nz] by blast
    have "r = X0"
      using r red by (rule X_unique) (simp add: pointMult_one_ratio)
    then show ?thesis using r by simp
  qed
  have nine: "reduced 9" "reduce 9 \<noteq> 0"
    by (simp_all add: reduced_def reduce_def fieldPrime_value)
  show ?thesis
    using gen [of X0] gen [OF nine(1) pointMult_one_nonzero [OF nine(2)]] by blast
qed

theorem pointMult_one_witness:
  "reduced 9 \<and> reduce (ratio_z (pointMult 9 1)) \<noteq> 0 \<and>
   X (ratio_x (pointMult 9 1)) (ratio_z (pointMult 9 1)) = Inr 9"
proof -
  have nine: "reduced 9" "reduce 9 \<noteq> 0"
    by (simp_all add: reduced_def reduce_def fieldPrime_value)
  show ?thesis
    using nine(1) pointMult_one_nonzero [OF nine(2)] pointMult_one [of 9] by blast
qed

text \<open>
  Claim C3, as the code has it: for every X-coordinate and every scalar the loop of
  \<open>pointMult\<close> executes its body exactly 256 times, for the bit indices 255, 254, ..., 0
  in this order, whatever the scalar is. The loop header starts at 255 and ends at 0
  inclusive, so the count is 256 and not 255.
\<close>

theorem pointMult_iterations:
  "pointMult_visited Xin n = rev (map int [0..<256]) \<and> length (pointMult_visited Xin n) = 256"
  by (simp add: pointMult_visited_def ladder_loop_visited)

text \<open>Claim C3 as stated fails: the number of iterations is not 255.\<close>

theorem pointMult_iterations_counterexample:
  "length (pointMult_visited 9 1) \<noteq> 255"
  by (simp add: pointMult_visited_def ladder_loop_visited)

text \<open>
  Claim C4, as the code has it: doubling a ratio with \<open>z = 0\<close> returns the pair of
  \<open>x^4\<close> reduced and 0: the denominator is 0, the numerator is 0 only when \<open>x\<close>
  itself reduces to 0. It is a defined result and no error.
\<close>

theorem pointDouble_infinity:
  "pointDouble x 0 = \<lparr>ratio_x = reduce (x ^ 4), ratio_z = 0\<rparr>"
  by (simp add: pointDouble_def Let_def reduce_reduce reduce_0 power4_eq_xxxx mult.assoc)

text \<open>Claim C4 as stated fails: \<open>pointDouble(1, 0)\<close> is the pair (1, 0), not (0, 0).\<close>

theorem pointDouble_infinity_counterexample:
  "pointDouble 1 0 \<noteq> \<lparr>ratio_x = 0, ratio_z = 0\<rparr>"
  by (simp add: pointDouble_def Let_def reduce_reduce reduce_0 reduce_1)

text \<open>
  Claim C5: for every ratio \<open>(x, z)\<close> whose \<open>z\<close> does not reduce to 0 and whose double
  is not at infinity (the \<open>z\<close> of \<open>pointDouble(x, z)\<close> does not reduce to 0), the three
  affine recoveries succeed, and the recovery of \<open>pointDouble(x, z)\<close> is the recovery of
  \<open>pointMult(X(x, z), 2)\<close>.
\<close>

theorem pointDouble_pointMult_two:
  assumes z: "reduce z \<noteq> 0"
    and dz: "reduce (ratio_z (pointDouble x z)) \<noteq> 0"
  shows "\<exists>X0 r. X x z = Inr X0 \<and>
     X (ratio_x (pointDouble x z)) (ratio_z (pointDouble x z)) = Inr r \<and>
     X (ratio_x (pointMult X0 2)) (ratio_z (pointMult X0 2)) = Inr r"
proof -
  obtain X0 where X0: "X x z = Inr X0" "reduced X0" "fp_of X0 * fp_of z = fp_of x"
    using X_value [OF z] by blast
  define u where "u = fp_of X0"
  define Z where "Z = fp_of z"
  have xz: "fp_of x = u * fp_of z" using X0(3) by (simp add: u_def)
  have dx: "fp_of (ratio_x (pointDouble x z)) = Z ^ 4 * dbl_num u"
    and dd: "fp_of (ratio_z (pointDouble x z)) = Z ^ 4 * dbl_den u"
    unfolding Z_def by (rule pointDouble_form [OF xz])+
  have den: "dbl_den u \<noteq> 0"
  proof
    assume "dbl_den u = 0"
    then have "fp_of (ratio_z (pointDouble x z)) = 0" by (simp add: dd)
    then show False using dz by (simp add: fp_of_zero_iff)
  qed
  then have unz: "fp_of X0 \<noteq> 0" using dbl_den_zero by (auto simp: u_def)
  obtain B where B: "B \<noteq> 0"
    "fp_of (ratio_x (pointMult X0 2)) = B ^ 4 * dbl_num u"
    "fp_of (ratio_z (pointMult X0 2)) = B ^ 4 * dbl_den u"
    unfolding u_def by (rule pointMult_two_ratio [OF unz])
  have "B ^ 4 * dbl_den u \<noteq> 0"
    using fp_power4_nonzero [OF B(1)] den by (rule fp_nonzero_mult)
  then have mz: "reduce (ratio_z (pointMult X0 2)) \<noteq> 0"
    by (simp add: B(3) [symmetric] fp_of_zero_iff)
  obtain r where r: "X (ratio_x (pointDouble x z)) (ratio_z (pointDouble x z)) = Inr r"
    "reduced r" "fp_of r * fp_of (ratio_z (pointDouble x z)) = fp_of (ratio_x (pointDouble x z))"
    using X_value [OF dz] by blast
  obtain r' where r': "X (ratio_x (pointMult X0 2)) (ratio_z (pointMult X0 2)) = Inr r'"
    using X_value [OF mz] by blast
  have Znz: "Z ^ 4 \<noteq> 0"
  proof -
    have "Z \<noteq> 0" using z by (simp add: Z_def fp_of_zero_iff)
    then show ?thesis by (rule fp_power4_nonzero)
  qed
  have "Z ^ 4 * (fp_of r * dbl_den u - dbl_num u) = 0"
    using r(3) by (simp add: dx dd algebra_simps)
  then have "fp_of r * dbl_den u - dbl_num u = 0"
    using fp_nonzero_mult [OF Znz] by blast
  then have eq: "fp_of r * dbl_den u = dbl_num u" by simp
  have "fp_of r * (B ^ 4 * dbl_den u) = B ^ 4 * (fp_of r * dbl_den u)"
    by (simp only: mult.left_commute)
  then have "fp_of r * (B ^ 4 * dbl_den u) = B ^ 4 * dbl_num u"
    by (simp only: eq)
  then have "fp_of r * fp_of (ratio_z (pointMult X0 2)) = fp_of (ratio_x (pointMult X0 2))"
    by (simp add: B(2,3))
  with r' r(2) have "r' = r" by (rule X_unique)
  then show ?thesis using X0(1) r(1) r' by blast
qed

theorem pointDouble_pointMult_two_witness:
  "reduce 1 \<noteq> 0 \<and> reduce (ratio_z (pointDouble 9 1)) \<noteq> 0 \<and>
   (\<exists>X0 r. X 9 1 = Inr X0 \<and>
     X (ratio_x (pointDouble 9 1)) (ratio_z (pointDouble 9 1)) = Inr r \<and>
     X (ratio_x (pointMult X0 2)) (ratio_z (pointMult X0 2)) = Inr r)"
proof -
  have a: "reduce 1 \<noteq> 0" by (simp add: reduce_1)
  have "ratio_z (pointDouble 9 1) = 157681440"
    by (simp add: pointDouble_def Let_def doubleA24_value reduce_def fieldPrime_value)
  then have b: "reduce (ratio_z (pointDouble 9 1)) \<noteq> 0"
    by (simp add: reduce_def fieldPrime_value)
  show ?thesis using a b pointDouble_pointMult_two [OF a b] by blast
qed

text \<open>
  Claim C6: affine recovery of a ratio whose \<open>z\<close> reduces to 0 modulo the field prime
  ends in the error of the inversion, for every \<open>x\<close>; it returns no field element.
\<close>

theorem X_degenerate: "reduce z = 0 \<Longrightarrow> X x z = Inl InversionOfZero"
  by (simp add: X_def inverseOf_def)

theorem X_degenerate_witness:
  "reduce 0 = 0 \<and> X 9 0 = Inl InversionOfZero \<and>
   reduce fieldPrime = 0 \<and> X 9 fieldPrime = Inl InversionOfZero"
proof -
  have a: "reduce 0 = 0" by (simp add: reduce_def)
  have b: "reduce fieldPrime = 0" by (simp add: reduce_def)
  show ?thesis using a b X_degenerate [OF a, of 9] X_degenerate [OF b, of 9] by simp
qed

text \<open>
  Claim C7: \<open>pointMult\<close> computes what the ladder of the specification computes: in
  every iteration the swap flag is combined by exclusive or with the scalar bit, the
  accumulators are swapped by the running value, the flag is reset to the bit, and the
  combined step uses the constant \<open>(A - 2) / 4\<close>; after the loop the accumulators are
  swapped by the last flag and the first one is returned. The constant of the ladder
  and the constant \<open>(A + 2) / 4\<close> of \<open>pointDouble\<close> are different numbers.
\<close>

theorem pointMult_refines_spec:
  "pointMult Xin n = (let (xr, zr) = spec_pointMult Xin n in \<lparr>ratio_x = xr, ratio_z = zr\<rparr>) \<and>
   multA24 = spec_a24_mult \<and> doubleA24 = spec_a24_double \<and> multA24 \<noteq> doubleA24"
proof -
  have "state_rel (ladder_init Xin) ((1, 0), (Xin, 1), False)"
    by (simp add: state_rel_def ladder_init_def)
  from ladder_run_spec [OF this, of Xin n 256]
  have "state_rel (ladder_run Xin n 255 256 (ladder_init Xin))
          (spec_ladder Xin n 256 ((1, 0), (Xin, 1), False))"
    by simp
  then have "pointMult Xin n =
      (let (xr, zr) = spec_pointMult Xin n in \<lparr>ratio_x = xr, ratio_z = zr\<rparr>)"
    by (auto simp: pointMult_run spec_pointMult_def state_rel_def Let_def)
  then show ?thesis
    by (simp add: multA24_value doubleA24_value spec_a24_mult_def spec_a24_double_def)
qed

text \<open>
  Claim C8: for every X-coordinate, \<open>pointMult\<close> with the scalar 0 returns the pair
  (1, 0), the point at infinity that the even accumulator starts with.
\<close>

theorem pointMult_zero: "pointMult Xin 0 = \<lparr>ratio_x = 1, ratio_z = 0\<rparr>"
proof -
  let ?P = "\<lambda>s::ladder_state. x_2 s = 1 \<and> z_2 s = 0 \<and> swap s = 0"
  have "?P (ladder_run Xin 0 255 256 (ladder_init Xin))"
  proof (rule ladder_run_invariant)
    show "?P (ladder_init Xin)" by (simp add: ladder_init_def)
  next
    fix t' s' assume "?P s'"
    then show "?P (ladder_step Xin 0 t' s')"
      using ladder_calc_infinity [of Xin "x_3 s'" "z_3 s'" 0]
      by (simp add: ladder_step_calc)
  qed
  then show ?thesis by (simp add: pointMult_run)
qed

text \<open>
  Claim C9: \<open>pointMult\<close> reads the scalar only through its bits 0 to 255: the result
  for \<open>n\<close> is the result for \<open>n mod 2^256\<close>. This holds for every integer \<open>n\<close>, in
  particular for the non-negative ones.
\<close>

theorem pointMult_low_bits: "pointMult Xin n = pointMult Xin (n mod 2 ^ 256)"
proof -
  have "ladder_run Xin n 255 256 (ladder_init Xin) =
        ladder_run Xin (n mod 2 ^ 256) 255 256 (ladder_init Xin)"
  proof (rule ladder_run_cong)
    fix t' :: int and s'
    assume "255 - int 256 < t'" "t' \<le> 255"
    then have "nat t' < 256" by simp
    then have "bit (n mod 2 ^ 256) (nat t') = bit n (nat t')"
      unfolding take_bit_eq_mod [symmetric] by (simp add: bit_take_bit_iff)
    then show "ladder_step Xin n t' s' = ladder_step Xin (n mod 2 ^ 256) t' s'"
      by (simp add: ladder_step_calc)
  qed
  then show ?thesis by (simp add: pointMult_run)
qed

text \<open>
  Claim C10: \<open>reduce\<close> maps every integer into the range from 0 to the field prime
  (lemma \<open>reduce_range\<close>), and with it both components of the results of
  \<open>pointDouble\<close>, \<open>pointAdd1\<close> and \<open>pointMult\<close> are in that range, for all inputs.
\<close>

theorem outputs_reduced:
  "reduced (ratio_x (pointDouble x z)) \<and> reduced (ratio_z (pointDouble x z)) \<and>
   reduced (ratio_x (pointAdd1 x z prevX prevZ)) \<and> reduced (ratio_z (pointAdd1 x z prevX prevZ)) \<and>
   reduced (ratio_x (pointMult Xin n)) \<and> reduced (ratio_z (pointMult Xin n))"
proof -
  have "state_reduced (ladder_run Xin n 255 256 (ladder_init Xin))"
    by (rule ladder_run_reduced) simp
  then have "reduced (ratio_x (pointMult Xin n)) \<and> reduced (ratio_z (pointMult Xin n))"
    by (simp add: pointMult_run state_reduced_def Let_def)
  then show ?thesis
    by (simp add: pointDouble_def pointAdd1_def Let_def reduced_reduce)
qed

end
